theory Spec2Isabelle
  imports Main
begin

section \<open>Text and character classes\<close>

text \<open>
  The converter works on one Python \<open>str\<close>.  Text is modelled as a \<open>string\<close>, a list of
  8-bit characters read as the code points U+0000 to U+00FF; the classes below are the ones
  Python's \<open>re\<close> and \<open>str\<close> use for patterns and text of type \<open>str\<close>, restricted to
  that range.  The section on text over any set of code points gives the same functions
  for every other text.
\<close>

definition is_space :: "char \<Rightarrow> bool" where
  \<comment> \<open>\<open>\s\<close> and \<open>str.isspace\<close>\<close>
  "is_space c = (of_char c \<in> {9, 10, 11, 12, 13, 28, 29, 30, 31, 32, 133, 160 :: nat})"

definition is_digit :: "char \<Rightarrow> bool" where
  \<comment> \<open>\<open>\d\<close>: the decimal digits\<close>
  "is_digit c = (let n = (of_char c :: nat) in 48 \<le> n \<and> n \<le> 57)"

definition is_word :: "char \<Rightarrow> bool" where
  \<comment> \<open>\<open>\w\<close>: alphanumeric characters and the underscore\<close>
  "is_word c = (let n = (of_char c :: nat) in
      (48 \<le> n \<and> n \<le> 57) \<or> (65 \<le> n \<and> n \<le> 90) \<or> n = 95 \<or> (97 \<le> n \<and> n \<le> 122)
      \<or> n = 170 \<or> (178 \<le> n \<and> n \<le> 179) \<or> n = 181 \<or> (185 \<le> n \<and> n \<le> 186)
      \<or> (188 \<le> n \<and> n \<le> 190) \<or> (192 \<le> n \<and> n \<le> 214) \<or> (216 \<le> n \<and> n \<le> 246)
      \<or> (248 \<le> n \<and> n \<le> 255))"

definition is_upper :: "char \<Rightarrow> bool" where
  \<comment> \<open>the characters that \<open>lower\<close> changes\<close>
  "is_upper c = (let n = (of_char c :: nat) in
      (65 \<le> n \<and> n \<le> 90) \<or> (192 \<le> n \<and> n \<le> 214) \<or> (216 \<le> n \<and> n \<le> 222))"

definition lower :: "char \<Rightarrow> char" where
  \<comment> \<open>an upper-case character has bit 5 clear, and setting it adds 32\<close>
  "lower c = (if is_upper c
      then (case c of Char b0 b1 b2 b3 b4 b5 b6 b7 \<Rightarrow> Char b0 b1 b2 b3 b4 True b6 b7)
      else c)"

definition strip :: "string \<Rightarrow> string" where
  \<comment> \<open>\<open>str.strip()\<close>\<close>
  "strip s = rev (dropWhile is_space (rev (dropWhile is_space s)))"

section \<open>Regular expressions\<close>

text \<open>
  One-character items of a pattern.  \<open>LitI\<close> is a literal under \<open>re.IGNORECASE\<close>,
  \<open>Dot\<close> is \<open>.\<close> without \<open>re.DOTALL\<close> (anything but a newline), \<open>Not a\<close> is the
  class \<open>[^a]\<close>.
\<close>

datatype cls = Lit char | LitI char | Dot | Word | Space | Digit | Not char

fun cls_match :: "cls \<Rightarrow> char \<Rightarrow> bool" where
  "cls_match (Lit a) c = (c = a)"
| "cls_match (LitI a) c = (lower c = lower a)"
| "cls_match Dot c = (c \<noteq> CHR 0x0A)"
| "cls_match Word c = is_word c"
| "cls_match Space c = is_space c"
| "cls_match Digit c = is_digit c"
| "cls_match (Not a) c = (c \<noteq> a)"

text \<open>
  The patterns of the converter repeat single characters only, so \<open>Star c\<close> is the greedy
  \<open>c*\<close> and \<open>LazyStar c\<close> the lazy \<open>c*?\<close> of a one-character item; \<open>Opt r\<close> is the greedy
  \<open>r?\<close>, \<open>Grp n r\<close> the capturing group number \<open>n\<close>, \<open>WordB\<close> is \<open>\b\<close> and
  \<open>NotAhead c\<close> is the lookahead \<open>(?!c)\<close>.
\<close>

datatype regex = Eps | Atom cls | Seq regex regex | Alt regex regex | Star cls | LazyStar cls
  | Opt regex | Grp nat regex | WordB | NotAhead cls

type_synonym groups = "nat \<Rightarrow> string option"

text \<open>
  A position in the text is given by the text from it on and by whether the character
  before it is a word character (all that \<open>\b\<close> asks about what lies behind; at the start
  of the text there is none).  The result of a match is the position where it ends and the
  groups it captured.
\<close>

type_synonym mstate = "bool \<times> string \<times> groups"

text \<open>
  The matcher backtracks as \<open>re\<close> does: every item gets the rest of the pattern as a
  continuation \<open>k\<close> and tries its alternatives in order of priority until the continuation
  succeeds.  The greedy star takes a character first and gives it back only if the rest
  fails; the lazy star tries the rest first.
\<close>

fun star :: "cls \<Rightarrow> (bool \<Rightarrow> string \<Rightarrow> mstate option) \<Rightarrow> bool \<Rightarrow> string \<Rightarrow> mstate option" where
  "star c k w [] = k w []"
| "star c k w (x # xs) =
     (if cls_match c x
      then (case star c k (is_word x) xs of Some r \<Rightarrow> Some r | None \<Rightarrow> k w (x # xs))
      else k w (x # xs))"

fun lazy_star :: "cls \<Rightarrow> (bool \<Rightarrow> string \<Rightarrow> mstate option) \<Rightarrow> bool \<Rightarrow> string \<Rightarrow> mstate option" where
  "lazy_star c k w [] = k w []"
| "lazy_star c k w (x # xs) =
     (case k w (x # xs) of
        Some r \<Rightarrow> Some r
      | None \<Rightarrow> if cls_match c x then lazy_star c k (is_word x) xs else None)"

definition word_after :: "string \<Rightarrow> bool" where
  "word_after s = (case s of [] \<Rightarrow> False | c # _ \<Rightarrow> is_word c)"

fun m :: "regex \<Rightarrow> bool \<Rightarrow> string \<Rightarrow> groups
    \<Rightarrow> (bool \<Rightarrow> string \<Rightarrow> groups \<Rightarrow> mstate option) \<Rightarrow> mstate option" where
  "m Eps w s g k = k w s g"
| "m (Atom c) w s g k =
     (case s of [] \<Rightarrow> None | x # xs \<Rightarrow> if cls_match c x then k (is_word x) xs g else None)"
| "m (Seq a b) w s g k = m a w s g (\<lambda>w' s' g'. m b w' s' g' k)"
| "m (Alt a b) w s g k = (case m a w s g k of Some r \<Rightarrow> Some r | None \<Rightarrow> m b w s g k)"
| "m (Star c) w s g k = star c (\<lambda>w' s'. k w' s' g) w s"
| "m (LazyStar c) w s g k = lazy_star c (\<lambda>w' s'. k w' s' g) w s"
| "m (Opt a) w s g k = (case m a w s g k of Some r \<Rightarrow> Some r | None \<Rightarrow> k w s g)"
| "m (Grp n a) w s g k =
     m a w s g (\<lambda>w' s' g'. k w' s' (g'(n \<mapsto> take (length s - length s') s)))"
| "m WordB w s g k = (if w \<noteq> word_after s then k w s g else None)"
| "m (NotAhead c) w s g k =
     (case s of [] \<Rightarrow> k w s g | x # _ \<Rightarrow> if cls_match c x then None else k w s g)"

definition match_at :: "regex \<Rightarrow> bool \<Rightarrow> string \<Rightarrow> mstate option" where
  \<comment> \<open>the match that starts at this position, if there is one\<close>
  "match_at r w s = m r w s (\<lambda>_. None) (\<lambda>w' s' g'. Some (w', s', g'))"

definition seqs :: "regex list \<Rightarrow> regex" where
  "seqs rs = foldr Seq rs Eps"

definition str :: "string \<Rightarrow> regex" where
  \<comment> \<open>a literal word of a pattern compiled without flags\<close>
  "str x = seqs (map (\<lambda>c. Atom (Lit c)) x)"

definition str_i :: "string \<Rightarrow> regex" where
  \<comment> \<open>a literal word of a pattern compiled with \<open>re.IGNORECASE\<close>\<close>
  "str_i x = seqs (map (\<lambda>c. Atom (LitI c)) x)"

definition plus :: "cls \<Rightarrow> regex" where
  \<comment> \<open>the greedy \<open>c+\<close>\<close>
  "plus c = Seq (Atom c) (Star c)"

section \<open>Substitution and iteration\<close>

text \<open>
  \<open>re.sub\<close> scans from the left: where the pattern matches, the replacement (a function of
  the matched text and the groups) is written and the scan goes on after the match; where
  it does not, the character is copied.  A match of the empty string (which no pattern of
  the converter has, see \<open>minlen\<close> below) writes the replacement and copies one character.
\<close>

function re_sub :: "regex \<Rightarrow> (string \<Rightarrow> groups \<Rightarrow> string) \<Rightarrow> bool \<Rightarrow> string \<Rightarrow> string" where
  "re_sub r f w [] = (case match_at r w [] of None \<Rightarrow> [] | Some (_, _, g) \<Rightarrow> f [] g)"
| "re_sub r f w (c # cs) =
     (case match_at r w (c # cs) of
        None \<Rightarrow> c # re_sub r f (is_word c) cs
      | Some (w', s', g) \<Rightarrow>
          if length s' < length (c # cs)
          then f (take (length (c # cs) - length s') (c # cs)) g @ re_sub r f w' s'
          else f [] g @ c # re_sub r f (is_word c) cs)"
  by pat_completeness auto
termination
  by (relation "measure (\<lambda>(r, f, w, s). length s)") auto

text \<open>\<open>finditer\<close> gives the same matches, as the list of matched text and groups.\<close>

function finditer :: "regex \<Rightarrow> bool \<Rightarrow> string \<Rightarrow> (string \<times> groups) list" where
  "finditer r w [] = (case match_at r w [] of None \<Rightarrow> [] | Some (_, _, g) \<Rightarrow> [([], g)])"
| "finditer r w (c # cs) =
     (case match_at r w (c # cs) of
        None \<Rightarrow> finditer r (is_word c) cs
      | Some (w', s', g) \<Rightarrow>
          if length s' < length (c # cs)
          then (take (length (c # cs) - length s') (c # cs), g) # finditer r w' s'
          else ([], g) # finditer r (is_word c) cs)"
  by pat_completeness auto
termination
  by (relation "measure (\<lambda>(r, w, s). length s)") auto

text \<open>
  \<open>str.replace(old, new)\<close> replaces every occurrence of \<open>old\<close>, found from the left and
  not overlapping; an empty \<open>old\<close> puts \<open>new\<close> before every character and at the end.
\<close>

function str_replace :: "string \<Rightarrow> string \<Rightarrow> string \<Rightarrow> string" where
  "str_replace old new [] = (if old = [] then new else [])"
| "str_replace old new (c # cs) =
     (if old = [] then new @ c # str_replace old new cs
      else if take (length old) (c # cs) = old
      then new @ str_replace old new (drop (length old) (c # cs))
      else c # str_replace old new cs)"
  by pat_completeness auto
termination
  by (relation "measure (\<lambda>(old, new, s). length s)") auto

definition grp :: "groups \<Rightarrow> nat \<Rightarrow> string" where
  \<comment> \<open>\<open>\n\<close> in a replacement template: a group that did not take part gives the empty string\<close>
  "grp g n = (case g n of None \<Rightarrow> [] | Some x \<Rightarrow> x)"

section \<open>The rules of the converter\<close>

text \<open>A rule is a pattern and a replacement; \<open>sub\<close> is \<open>re.sub\<close> on the whole text.\<close>

type_synonym rule = "regex \<times> (string \<Rightarrow> groups \<Rightarrow> string)"

definition sub :: "rule \<Rightarrow> string \<Rightarrow> string" where
  "sub rl s = re_sub (fst rl) (snd rl) False s"

abbreviation backtick :: char where "backtick \<equiv> CHR 0x60"
abbreviation dquote :: char where "dquote \<equiv> CHR 0x22"
abbreviation squote :: char where "squote \<equiv> CHR 0x27"
abbreviation newline :: char where "newline \<equiv> CHR 0x0A"

definition rule1 :: rule where
  "rule1 = (seqs [Atom (Lit backtick), Grp 1 (LazyStar Dot), Atom (Lit backtick)],
            \<lambda>_ g. [dquote] @ grp g 1 @ [dquote])"

definition rule2 :: rule where
  "rule2 = (seqs [str_i ''AUTO'', Opt (Atom (LitI CHR ''_'')), str_i ''INCREMENT''],
            \<lambda>_ _. ''SERIAL'')"

definition rule3a :: rule where
  "rule3a = (seqs [WordB, str_i ''INT'', WordB, NotAhead Word], \<lambda>_ _. ''INTEGER'')"

definition rule3b :: rule where
  "rule3b = (seqs [WordB, str_i ''INT('', plus Digit, Atom (LitI CHR '')'')], \<lambda>_ _. ''INTEGER'')"

definition rule4 :: rule where
  "rule4 = (seqs [WordB, Grp 1 (Alt (str_i ''TINY'') (Alt (str_i ''MEDIUM'') (str_i ''LONG''))),
                  str_i ''TEXT'', WordB],
            \<lambda>_ _. ''TEXT'')"

definition unsigned_pattern :: regex where
  "unsigned_pattern = seqs [Grp 1 (Seq (plus Word) (plus Space)), Grp 2 (LazyStar Dot),
     Grp 3 (Seq (plus Space) (str_i ''UNSIGNED''))]"

datatype error = AttributeError

text \<open>
  The body of the loop of rule 5 for one match: \<open>group(1)\<close> and \<open>group(2)\<close> are stripped
  (which raises on \<open>None\<close>), and \<open>str.replace\<close> puts the replacement for the matched text
  into the working text.
\<close>

definition unsigned_step :: "string \<times> groups \<Rightarrow> string \<Rightarrow> error + string" where
  "unsigned_step mt psql_queries =
     (case snd mt 1 of
        None \<Rightarrow> Inl AttributeError
      | Some g1 \<Rightarrow>
         (case snd mt 2 of
            None \<Rightarrow> Inl AttributeError
          | Some g2 \<Rightarrow>
             (let column_type = strip g1;
                  column_name = strip g2;
                  replacement = column_type @ '' '' @ column_name @ '' CHECK (''
                                @ column_name @ '' >= 0)''
              in Inr (str_replace (fst mt) replacement psql_queries))))"

fun unsigned_loop :: "(string \<times> groups) list \<Rightarrow> string \<Rightarrow> error + string" where
  "unsigned_loop [] psql_queries = Inr psql_queries"
| "unsigned_loop (mt # ms) psql_queries =
     (case unsigned_step mt psql_queries of
        Inl e \<Rightarrow> Inl e
      | Inr q \<Rightarrow> unsigned_loop ms q)"

definition rule5 :: "string \<Rightarrow> error + string" where
  \<comment> \<open>the iterator runs over the text as it was before the loop\<close>
  "rule5 s = unsigned_loop (finditer unsigned_pattern False s) s"

definition rule6 :: rule where
  "rule6 = (seqs [WordB, str_i ''TINYINT(1)''], \<lambda>_ _. ''BOOLEAN'')"

definition rule7 :: rule where
  "rule7 = (seqs [WordB, str_i ''DATETIME'', WordB], \<lambda>_ _. ''TIMESTAMP'')"

definition rule8 :: rule where
  "rule8 = (seqs [str_i ''IFNULL('', Grp 1 (LazyStar Dot), Atom (LitI CHR '',''),
                  Grp 2 (LazyStar Dot), Atom (LitI CHR '')'')],
            \<lambda>_ g. ''COALESCE('' @ grp g 1 @ '','' @ grp g 2 @ '')'')"

definition rule9 :: rule where
  "rule9 = (seqs [str_i ''LIMIT'', plus Space, Grp 1 (plus Digit), Star Space,
                  Atom (LitI CHR '',''), Star Space, Grp 2 (plus Digit)],
            \<lambda>_ g. ''LIMIT '' @ grp g 2 @ '' OFFSET '' @ grp g 1)"

definition rule10 :: rule where
  "rule10 = (seqs [WordB, str_i ''NOW()''], \<lambda>_ _. ''CURRENT_TIMESTAMP'')"

definition rule11 :: rule where
  "rule11 = (seqs [str_i ''SUBSTRING_INDEX('', Grp 1 (plus (Not CHR '','')),
                   Atom (LitI CHR '',''), Star Space, Grp 2 (plus (Not CHR '','')),
                   Atom (LitI CHR '',''), Star Space, Grp 3 (plus Digit), Atom (LitI CHR '')'')],
             \<lambda>_ g. ''split_part('' @ grp g 1 @ '', '' @ grp g 2 @ '', '' @ grp g 3 @ '')'')"

definition string_agg :: "string \<Rightarrow> groups \<Rightarrow> string" where
  \<comment> \<open>the \<open>lambda\<close> of rule 12; an f-string prints \<open>None\<close> as the word, and
      \<open>m.group(2) or ','\<close> takes the comma for \<open>None\<close> and for the empty string\<close>
  "string_agg m0 g =
     ''STRING_AGG('' @ (case g 1 of None \<Rightarrow> ''None'' | Some x \<Rightarrow> x) @ '', '' @ [squote]
       @ (case g 2 of None \<Rightarrow> '','' | Some x \<Rightarrow> if x = [] then '','' else x)
       @ [squote] @ '')''"

definition rule12 :: rule where
  "rule12 = (seqs [str_i ''GROUP_CONCAT('', Grp 1 (plus (Not CHR '')'')),
                   Opt (seqs [plus Space, str_i ''SEPARATOR'', plus Space, Atom (LitI squote),
                              Grp 2 (plus (Not squote)), Atom (LitI squote)]),
                   Atom (LitI CHR '')'')],
             string_agg)"

definition rule13a :: rule where
  "rule13a = (seqs [WordB, str_i ''TRUE'', WordB], \<lambda>_ _. ''true'')"

definition rule13b :: rule where
  "rule13b = (seqs [WordB, str_i ''FALSE'', WordB], \<lambda>_ _. ''false'')"

definition rule14 :: rule where
  "rule14 = (seqs [Atom Space, str_i ''REGEXP'', Atom Space], \<lambda>_ _. '' ~ '')"

definition rule15a :: rule where
  "rule15a = (seqs [str_i ''ENGINE'', Star Space, Atom (LitI CHR ''=''), Star Space, plus Word],
              \<lambda>_ _. [])"

definition rule15b :: rule where
  "rule15b = (seqs [str_i ''DEFAULT CHARSET'', Star Space, Atom (LitI CHR ''=''), Star Space,
                    plus Word],
              \<lambda>_ _. [])"

definition rule16 :: rule where
  "rule16 = (seqs [str ''--'', Atom Space], \<lambda>_ _. ''-- '')"

section \<open>The pipeline\<close>

definition rule3 :: "string \<Rightarrow> string" where
  "rule3 s = sub rule3b (sub rule3a s)"

definition rules_6_16 :: "string \<Rightarrow> string" where
  "rules_6_16 q =
     sub rule16 (sub rule15b (sub rule15a (sub rule14 (sub rule13b (sub rule13a (sub rule12
       (sub rule11 (sub rule10 (sub rule9 (sub rule8 (sub rule7 (sub rule6 q))))))))))))"

definition rules_4_16 :: "string \<Rightarrow> error + string" where
  "rules_4_16 q =
     (case rule5 (sub rule4 q) of
        Inl e \<Rightarrow> Inl e
      | Inr q5 \<Rightarrow> Inr (rules_6_16 q5))"

definition rewrite :: "string \<Rightarrow> error + string" where
  \<comment> \<open>lines 20 to 83 of \<open>convert_mysql_to_postgresql\<close>: from the text read to the text written\<close>
  "rewrite mysql_queries = rules_4_16 (rule3 (sub rule2 (sub rule1 mysql_queries)))"

definition rewrite_swapped :: "string \<Rightarrow> error + string" where
  \<comment> \<open>the pipeline with rule 3 in the place of rule 1 and rule 1 in the place of rule 3\<close>
  "rewrite_swapped mysql_queries = rules_4_16 (sub rule1 (sub rule2 (rule3 mysql_queries)))"


section \<open>Notions used in the properties\<close>

fun contains :: "string \<Rightarrow> string \<Rightarrow> bool" where
  \<comment> \<open>\<open>frag in s\<close>\<close>
  "contains frag [] = (frag = [])"
| "contains frag (c # cs) = (take (length frag) (c # cs) = frag \<or> contains frag cs)"

fun minlen :: "regex \<Rightarrow> nat" where
  \<comment> \<open>a lower bound for the length of a match\<close>
  "minlen Eps = 0"
| "minlen (Atom c) = 1"
| "minlen (Seq a b) = minlen a + minlen b"
| "minlen (Alt a b) = min (minlen a) (minlen b)"
| "minlen (Star c) = 0"
| "minlen (LazyStar c) = 0"
| "minlen (Opt a) = 0"
| "minlen (Grp n a) = minlen a"
| "minlen WordB = 0"
| "minlen (NotAhead c) = 0"

fun captures :: "regex \<Rightarrow> nat list" where
  \<comment> \<open>the groups that every match of the pattern sets\<close>
  "captures (Seq a b) = captures a @ captures b"
| "captures (Alt a b) = filter (\<lambda>n. n \<in> set (captures b)) (captures a)"
| "captures (Grp n a) = n # captures a"
| "captures _ = []"

fun replace_first :: "string \<Rightarrow> string \<Rightarrow> string \<Rightarrow> string" where
  \<comment> \<open>In the words of the specification of rule 5: only the first occurrence of \<open>old\<close>
      is replaced.  The code does not use it; \<open>unsigned_step\<close> is compared with it.\<close>
  "replace_first old new [] = (if old = [] then new else [])"
| "replace_first old new (c # cs) =
     (if take (length old) (c # cs) = old then new @ drop (length old) (c # cs)
      else c # replace_first old new cs)"

fun join :: "string \<Rightarrow> string list \<Rightarrow> string" where
  \<comment> \<open>\<open>sep.join(segs)\<close>, to write a text as pieces between occurrences of \<open>sep\<close>\<close>
  "join sep [] = []"
| "join sep [x] = x"
| "join sep (x # y # ys) = x @ sep @ join sep (y # ys)"

definition cut_at :: "string \<Rightarrow> string list \<Rightarrow> bool" where
  \<comment> \<open>\<open>segs\<close> are the pieces of a text between the occurrences of \<open>old\<close> that a scan from
      the left finds, one after the end of the other: \<open>old\<close> does not begin inside a piece\<close>
  "cut_at old segs = (segs \<noteq> []
     \<and> list_all (\<lambda>seg. \<not> contains old (seg @ butlast old)) (butlast segs)
     \<and> \<not> contains old (last segs))"

fun space_after_dashes :: "string \<Rightarrow> string" where
  \<comment> \<open>Rule 16 in words: the whitespace character after a double hyphen becomes a space.
      The code does not use it; \<open>sub rule16\<close> is compared with it.\<close>
  "space_after_dashes (a # b # c # cs) =
     (if a = CHR ''-'' \<and> b = CHR ''-'' \<and> is_space c then ''-- '' @ space_after_dashes cs
      else a # space_after_dashes (b # c # cs))"
| "space_after_dashes s = s"

fun blind :: "char \<Rightarrow> regex \<Rightarrow> bool" where
  \<comment> \<open>the pattern cannot take the character \<open>d\<close> and looks at it as at the end of the text\<close>
  "blind d Eps = True"
| "blind d (Atom c) = (\<not> cls_match c d)"
| "blind d (Seq a b) = (blind d a \<and> blind d b)"
| "blind d (Alt a b) = (blind d a \<and> blind d b)"
| "blind d (Star c) = (\<not> cls_match c d)"
| "blind d (LazyStar c) = (\<not> cls_match c d)"
| "blind d (Opt a) = blind d a"
| "blind d (Grp n a) = blind d a"
| "blind d WordB = (\<not> is_word d)"
| "blind d (NotAhead c) = (\<not> cls_match c d)"

section \<open>Text over any set of code points\<close>

text \<open>
  A Python \<open>str\<close> is a sequence of code points up to U+10FFFF, and \<open>\w\<close>, \<open>\s\<close>, \<open>\d\<close>,
  the comparison of letters under \<open>re.IGNORECASE\<close> and \<open>str.strip\<close> follow the Unicode
  tables.  The functions of the converter are given here a second time, word for word, over
  any type \<open>'c\<close> of characters, with the tables as a parameter: \<open>code_of\<close> is the character
  of the text that an ASCII character of a pattern or of a replacement stands for,
  \<open>same_letter a c\<close> says that the character \<open>c\<close> of the text matches the literal \<open>a\<close> of a
  pattern compiled with \<open>re.IGNORECASE\<close>, and \<open>word_char\<close>, \<open>space_char\<close> and
  \<open>digit_char\<close> are \<open>\w\<close>, \<open>\s\<close> (with \<open>str.isspace\<close>) and \<open>\d\<close>.  The patterns are the
  ones of the rules above.  With the tables \<open>latin1\<close> these functions are the functions
  above; with the Unicode tables they are the converter on every \<open>str\<close>.
\<close>

record 'c alphabet =
  code_of :: "char \<Rightarrow> 'c"
  same_letter :: "char \<Rightarrow> 'c \<Rightarrow> bool"
  word_char :: "'c \<Rightarrow> bool"
  space_char :: "'c \<Rightarrow> bool"
  digit_char :: "'c \<Rightarrow> bool"

definition latin1 :: "char alphabet" where
  "latin1 = \<lparr>code_of = (\<lambda>c. c), same_letter = (\<lambda>a c. lower c = lower a),
             word_char = is_word, space_char = is_space, digit_char = is_digit\<rparr>"

definition text_in :: "'c alphabet \<Rightarrow> string \<Rightarrow> 'c list" where
  \<comment> \<open>a string literal of the source\<close>
  "text_in A x = map (code_of A) x"

definition strip_in :: "'c alphabet \<Rightarrow> 'c list \<Rightarrow> 'c list" where
  "strip_in A s = rev (dropWhile (space_char A) (rev (dropWhile (space_char A) s)))"

fun cls_match_in :: "'c alphabet \<Rightarrow> cls \<Rightarrow> 'c \<Rightarrow> bool" where
  "cls_match_in A (Lit a) c = (c = code_of A a)"
| "cls_match_in A (LitI a) c = same_letter A a c"
| "cls_match_in A Dot c = (c \<noteq> code_of A CHR 0x0A)"
| "cls_match_in A Word c = word_char A c"
| "cls_match_in A Space c = space_char A c"
| "cls_match_in A Digit c = digit_char A c"
| "cls_match_in A (Not a) c = (c \<noteq> code_of A a)"

type_synonym 'c groups_in = "nat \<Rightarrow> 'c list option"

type_synonym 'c mstate_in = "bool \<times> 'c list \<times> 'c groups_in"

fun star_in :: "'c alphabet \<Rightarrow> cls \<Rightarrow> (bool \<Rightarrow> 'c list \<Rightarrow> 'c mstate_in option) \<Rightarrow> bool \<Rightarrow> 'c list
    \<Rightarrow> 'c mstate_in option" where
  "star_in A c k w [] = k w []"
| "star_in A c k w (x # xs) =
     (if cls_match_in A c x
      then (case star_in A c k (word_char A x) xs of Some r \<Rightarrow> Some r | None \<Rightarrow> k w (x # xs))
      else k w (x # xs))"

fun lazy_star_in :: "'c alphabet \<Rightarrow> cls \<Rightarrow> (bool \<Rightarrow> 'c list \<Rightarrow> 'c mstate_in option) \<Rightarrow> bool
    \<Rightarrow> 'c list \<Rightarrow> 'c mstate_in option" where
  "lazy_star_in A c k w [] = k w []"
| "lazy_star_in A c k w (x # xs) =
     (case k w (x # xs) of
        Some r \<Rightarrow> Some r
      | None \<Rightarrow> if cls_match_in A c x then lazy_star_in A c k (word_char A x) xs else None)"

definition word_after_in :: "'c alphabet \<Rightarrow> 'c list \<Rightarrow> bool" where
  "word_after_in A s = (case s of [] \<Rightarrow> False | c # _ \<Rightarrow> word_char A c)"

fun m_in :: "'c alphabet \<Rightarrow> regex \<Rightarrow> bool \<Rightarrow> 'c list \<Rightarrow> 'c groups_in
    \<Rightarrow> (bool \<Rightarrow> 'c list \<Rightarrow> 'c groups_in \<Rightarrow> 'c mstate_in option) \<Rightarrow> 'c mstate_in option" where
  "m_in A Eps w s g k = k w s g"
| "m_in A (Atom c) w s g k =
     (case s of [] \<Rightarrow> None
      | x # xs \<Rightarrow> if cls_match_in A c x then k (word_char A x) xs g else None)"
| "m_in A (Seq a b) w s g k = m_in A a w s g (\<lambda>w' s' g'. m_in A b w' s' g' k)"
| "m_in A (Alt a b) w s g k =
     (case m_in A a w s g k of Some r \<Rightarrow> Some r | None \<Rightarrow> m_in A b w s g k)"
| "m_in A (Star c) w s g k = star_in A c (\<lambda>w' s'. k w' s' g) w s"
| "m_in A (LazyStar c) w s g k = lazy_star_in A c (\<lambda>w' s'. k w' s' g) w s"
| "m_in A (Opt a) w s g k = (case m_in A a w s g k of Some r \<Rightarrow> Some r | None \<Rightarrow> k w s g)"
| "m_in A (Grp n a) w s g k =
     m_in A a w s g (\<lambda>w' s' g'. k w' s' (g'(n \<mapsto> take (length s - length s') s)))"
| "m_in A WordB w s g k = (if w \<noteq> word_after_in A s then k w s g else None)"
| "m_in A (NotAhead c) w s g k =
     (case s of [] \<Rightarrow> k w s g | x # _ \<Rightarrow> if cls_match_in A c x then None else k w s g)"

definition match_at_in :: "'c alphabet \<Rightarrow> regex \<Rightarrow> bool \<Rightarrow> 'c list \<Rightarrow> 'c mstate_in option" where
  "match_at_in A r w s = m_in A r w s (\<lambda>_. None) (\<lambda>w' s' g'. Some (w', s', g'))"

function re_sub_in :: "'c alphabet \<Rightarrow> regex \<Rightarrow> ('c list \<Rightarrow> 'c groups_in \<Rightarrow> 'c list) \<Rightarrow> bool
    \<Rightarrow> 'c list \<Rightarrow> 'c list" where
  "re_sub_in A r f w [] = (case match_at_in A r w [] of None \<Rightarrow> [] | Some (_, _, g) \<Rightarrow> f [] g)"
| "re_sub_in A r f w (c # cs) =
     (case match_at_in A r w (c # cs) of
        None \<Rightarrow> c # re_sub_in A r f (word_char A c) cs
      | Some (w', s', g) \<Rightarrow>
          if length s' < length (c # cs)
          then f (take (length (c # cs) - length s') (c # cs)) g @ re_sub_in A r f w' s'
          else f [] g @ c # re_sub_in A r f (word_char A c) cs)"
  by pat_completeness auto
termination
  by (relation "measure (\<lambda>(A, r, f, w, s). length s)") auto

function finditer_in :: "'c alphabet \<Rightarrow> regex \<Rightarrow> bool \<Rightarrow> 'c list \<Rightarrow> ('c list \<times> 'c groups_in) list" where
  "finditer_in A r w [] =
     (case match_at_in A r w [] of None \<Rightarrow> [] | Some (_, _, g) \<Rightarrow> [([], g)])"
| "finditer_in A r w (c # cs) =
     (case match_at_in A r w (c # cs) of
        None \<Rightarrow> finditer_in A r (word_char A c) cs
      | Some (w', s', g) \<Rightarrow>
          if length s' < length (c # cs)
          then (take (length (c # cs) - length s') (c # cs), g) # finditer_in A r w' s'
          else ([], g) # finditer_in A r (word_char A c) cs)"
  by pat_completeness auto
termination
  by (relation "measure (\<lambda>(A, r, w, s). length s)") auto

function str_replace_in :: "'c list \<Rightarrow> 'c list \<Rightarrow> 'c list \<Rightarrow> 'c list" where
  "str_replace_in old new [] = (if old = [] then new else [])"
| "str_replace_in old new (c # cs) =
     (if old = [] then new @ c # str_replace_in old new cs
      else if take (length old) (c # cs) = old
      then new @ str_replace_in old new (drop (length old) (c # cs))
      else c # str_replace_in old new cs)"
  by pat_completeness auto
termination
  by (relation "measure (\<lambda>(old, new, s). length s)") auto

definition grp_in :: "'c groups_in \<Rightarrow> nat \<Rightarrow> 'c list" where
  "grp_in g n = (case g n of None \<Rightarrow> [] | Some x \<Rightarrow> x)"

type_synonym 'c rule_in = "regex \<times> ('c list \<Rightarrow> 'c groups_in \<Rightarrow> 'c list)"

definition sub_in :: "'c alphabet \<Rightarrow> 'c rule_in \<Rightarrow> 'c list \<Rightarrow> 'c list" where
  "sub_in A rl s = re_sub_in A (fst rl) (snd rl) False s"

definition rule1_in :: "'c alphabet \<Rightarrow> 'c rule_in" where
  "rule1_in A = (fst rule1, \<lambda>_ g. text_in A [dquote] @ grp_in g 1 @ text_in A [dquote])"

definition rule2_in :: "'c alphabet \<Rightarrow> 'c rule_in" where
  "rule2_in A = (fst rule2, \<lambda>_ _. text_in A ''SERIAL'')"

definition rule3a_in :: "'c alphabet \<Rightarrow> 'c rule_in" where
  "rule3a_in A = (fst rule3a, \<lambda>_ _. text_in A ''INTEGER'')"

definition rule3b_in :: "'c alphabet \<Rightarrow> 'c rule_in" where
  "rule3b_in A = (fst rule3b, \<lambda>_ _. text_in A ''INTEGER'')"

definition rule4_in :: "'c alphabet \<Rightarrow> 'c rule_in" where
  "rule4_in A = (fst rule4, \<lambda>_ _. text_in A ''TEXT'')"

definition unsigned_step_in ::
    "'c alphabet \<Rightarrow> 'c list \<times> 'c groups_in \<Rightarrow> 'c list \<Rightarrow> error + 'c list" where
  "unsigned_step_in A mt psql_queries =
     (case snd mt 1 of
        None \<Rightarrow> Inl AttributeError
      | Some g1 \<Rightarrow>
         (case snd mt 2 of
            None \<Rightarrow> Inl AttributeError
          | Some g2 \<Rightarrow>
             (let column_type = strip_in A g1;
                  column_name = strip_in A g2;
                  replacement = column_type @ text_in A '' '' @ column_name
                                @ text_in A '' CHECK ('' @ column_name @ text_in A '' >= 0)''
              in Inr (str_replace_in (fst mt) replacement psql_queries))))"

fun unsigned_loop_in ::
    "'c alphabet \<Rightarrow> ('c list \<times> 'c groups_in) list \<Rightarrow> 'c list \<Rightarrow> error + 'c list" where
  "unsigned_loop_in A [] psql_queries = Inr psql_queries"
| "unsigned_loop_in A (mt # ms) psql_queries =
     (case unsigned_step_in A mt psql_queries of
        Inl e \<Rightarrow> Inl e
      | Inr q \<Rightarrow> unsigned_loop_in A ms q)"

definition rule5_in :: "'c alphabet \<Rightarrow> 'c list \<Rightarrow> error + 'c list" where
  "rule5_in A s = unsigned_loop_in A (finditer_in A unsigned_pattern False s) s"

definition rule6_in :: "'c alphabet \<Rightarrow> 'c rule_in" where
  "rule6_in A = (fst rule6, \<lambda>_ _. text_in A ''BOOLEAN'')"

definition rule7_in :: "'c alphabet \<Rightarrow> 'c rule_in" where
  "rule7_in A = (fst rule7, \<lambda>_ _. text_in A ''TIMESTAMP'')"

definition rule8_in :: "'c alphabet \<Rightarrow> 'c rule_in" where
  "rule8_in A = (fst rule8,
     \<lambda>_ g. text_in A ''COALESCE('' @ grp_in g 1 @ text_in A '','' @ grp_in g 2 @ text_in A '')'')"

definition rule9_in :: "'c alphabet \<Rightarrow> 'c rule_in" where
  "rule9_in A = (fst rule9,
     \<lambda>_ g. text_in A ''LIMIT '' @ grp_in g 2 @ text_in A '' OFFSET '' @ grp_in g 1)"

definition rule10_in :: "'c alphabet \<Rightarrow> 'c rule_in" where
  "rule10_in A = (fst rule10, \<lambda>_ _. text_in A ''CURRENT_TIMESTAMP'')"

definition rule11_in :: "'c alphabet \<Rightarrow> 'c rule_in" where
  "rule11_in A = (fst rule11,
     \<lambda>_ g. text_in A ''split_part('' @ grp_in g 1 @ text_in A '', '' @ grp_in g 2
            @ text_in A '', '' @ grp_in g 3 @ text_in A '')'')"

definition string_agg_in :: "'c alphabet \<Rightarrow> 'c list \<Rightarrow> 'c groups_in \<Rightarrow> 'c list" where
  "string_agg_in A m0 g =
     text_in A ''STRING_AGG('' @ (case g 1 of None \<Rightarrow> text_in A ''None'' | Some x \<Rightarrow> x)
       @ text_in A '', '' @ text_in A [squote]
       @ (case g 2 of None \<Rightarrow> text_in A '','' | Some x \<Rightarrow> if x = [] then text_in A '','' else x)
       @ text_in A [squote] @ text_in A '')''"

definition rule12_in :: "'c alphabet \<Rightarrow> 'c rule_in" where
  "rule12_in A = (fst rule12, string_agg_in A)"

definition rule13a_in :: "'c alphabet \<Rightarrow> 'c rule_in" where
  "rule13a_in A = (fst rule13a, \<lambda>_ _. text_in A ''true'')"

definition rule13b_in :: "'c alphabet \<Rightarrow> 'c rule_in" where
  "rule13b_in A = (fst rule13b, \<lambda>_ _. text_in A ''false'')"

definition rule14_in :: "'c alphabet \<Rightarrow> 'c rule_in" where
  "rule14_in A = (fst rule14, \<lambda>_ _. text_in A '' ~ '')"

definition rule15a_in :: "'c alphabet \<Rightarrow> 'c rule_in" where
  "rule15a_in A = (fst rule15a, \<lambda>_ _. [])"

definition rule15b_in :: "'c alphabet \<Rightarrow> 'c rule_in" where
  "rule15b_in A = (fst rule15b, \<lambda>_ _. [])"

definition rule16_in :: "'c alphabet \<Rightarrow> 'c rule_in" where
  "rule16_in A = (fst rule16, \<lambda>_ _. text_in A ''-- '')"

definition rule3_in :: "'c alphabet \<Rightarrow> 'c list \<Rightarrow> 'c list" where
  "rule3_in A s = sub_in A (rule3b_in A) (sub_in A (rule3a_in A) s)"

definition rules_6_16_in :: "'c alphabet \<Rightarrow> 'c list \<Rightarrow> 'c list" where
  "rules_6_16_in A q =
     sub_in A (rule16_in A) (sub_in A (rule15b_in A) (sub_in A (rule15a_in A)
       (sub_in A (rule14_in A) (sub_in A (rule13b_in A) (sub_in A (rule13a_in A)
         (sub_in A (rule12_in A) (sub_in A (rule11_in A) (sub_in A (rule10_in A)
           (sub_in A (rule9_in A) (sub_in A (rule8_in A) (sub_in A (rule7_in A)
             (sub_in A (rule6_in A) q))))))))))))"

definition rules_4_16_in :: "'c alphabet \<Rightarrow> 'c list \<Rightarrow> error + 'c list" where
  "rules_4_16_in A q =
     (case rule5_in A (sub_in A (rule4_in A) q) of
        Inl e \<Rightarrow> Inl e
      | Inr q5 \<Rightarrow> Inr (rules_6_16_in A q5))"

definition rewrite_in :: "'c alphabet \<Rightarrow> 'c list \<Rightarrow> error + 'c list" where
  \<comment> \<open>lines 20 to 83 of \<open>convert_mysql_to_postgresql\<close> on text over \<open>'c\<close>\<close>
  "rewrite_in A mysql_queries =
     rules_4_16_in A (rule3_in A (sub_in A (rule2_in A) (sub_in A (rule1_in A) mysql_queries)))"


section \<open>Evaluating the character classes\<close>

text \<open>The classes on the bits of a character, for evaluation.\<close>

lemma is_digit_code [code]:
  "is_digit (Char b0 b1 b2 b3 b4 b5 b6 b7) =
    (\<not> b7 \<and> (\<not> b6 \<and> (b5 \<and> (b4 \<and> (\<not> b3 \<or> (\<not> b2 \<and> \<not> b1))))))"
  by (cases b0; cases b1; cases b2; cases b3; cases b4; cases b5; cases b6; cases b7;
      simp add: is_digit_def)

lemma is_word_code [code]:
  "is_word (Char b0 b1 b2 b3 b4 b5 b6 b7) =
    (if b7 then (if b6 then (\<not> b4 \<or> (b3 \<or> (\<not> b2 \<or> (\<not> b1 \<or> \<not> b0))))
       else (b5 \<and> (if b4 then (if b3 then (if b2 then (\<not> b1 \<or> \<not> b0) else (if b1 then \<not> b0 else b0))
          else (if b2 then (\<not> b1 \<and> b0) else b1)) else (b3 \<and> (\<not> b2 \<and> (b1 \<and> \<not> b0))))))
     else (if b6 then (if b5 then (if b4 then (\<not> b3 \<or> (\<not> b2 \<and> (\<not> b1 \<or> \<not> b0)))
          else (b3 \<or> (b2 \<or> (b1 \<or> b0))))
        else (if b4 then (\<not> b3 \<or> (if b2 then (b1 \<and> b0) else (\<not> b1 \<or> \<not> b0)))
          else (b3 \<or> (b2 \<or> (b1 \<or> b0)))))
       else (b5 \<and> (b4 \<and> (\<not> b3 \<or> (\<not> b2 \<and> \<not> b1))))))"
  by (cases b0; cases b1; cases b2; cases b3; cases b4; cases b5; cases b6; cases b7;
      simp add: is_word_def)

lemma is_space_code [code]:
  "is_space (Char b0 b1 b2 b3 b4 b5 b6 b7) =
    (if b7 then (\<not> b6 \<and> (if b5 then (\<not> b4 \<and> (\<not> b3 \<and> (\<not> b2 \<and> (\<not> b1 \<and> \<not> b0))))
        else (\<not> b4 \<and> (\<not> b3 \<and> (b2 \<and> (\<not> b1 \<and> b0))))))
     else (\<not> b6 \<and> (if b5 then (\<not> b4 \<and> (\<not> b3 \<and> (\<not> b2 \<and> (\<not> b1 \<and> \<not> b0))))
        else (if b4 then (b3 \<and> b2) else (b3 \<and> (if b2 then \<not> b1 else (b1 \<or> b0)))))))"
  by (cases b0; cases b1; cases b2; cases b3; cases b4; cases b5; cases b6; cases b7;
      simp add: is_space_def)

lemma is_upper_code [code]:
  "is_upper (Char b0 b1 b2 b3 b4 b5 b6 b7) =
    (if b7 then (b6 \<and> (\<not> b5 \<and> (\<not> b4 \<or> (\<not> b2 \<or> (\<not> b1 \<or> \<not> b0)))))
     else (b6 \<and> (\<not> b5 \<and> (if b4 then (\<not> b3 \<or> (\<not> b2 \<and> (\<not> b1 \<or> \<not> b0)))
        else (b3 \<or> (b2 \<or> (b1 \<or> b0)))))))"
  by (cases b0; cases b1; cases b2; cases b3; cases b4; cases b5; cases b6; cases b7;
      simp add: is_upper_def)

lemma lower_adds_32: "is_upper c \<Longrightarrow> of_char (lower c) = (of_char c :: nat) + 32"
proof (cases c)
  case (Char b0 b1 b2 b3 b4 b5 b6 b7)
  assume "is_upper c"
  with Char have "\<not> b5" by (simp add: is_upper_code split: if_splits)
  with Char \<open>is_upper c\<close> show ?thesis by (simp add: lower_def)
qed

section \<open>What a match consumes and captures\<close>

text \<open>
  A successful match has handed a position further on in the text to its continuation,
  at least \<open>minlen\<close> characters later, with every group of \<open>captures\<close> set and no group
  lost.
\<close>

lemma star_cont:
  "star c k w s = Some res \<Longrightarrow> \<exists>w' u s'. s = u @ s' \<and> k w' s' = Some res"
proof (induction s arbitrary: w)
  case Nil
  then have "[] = [] @ [] \<and> k w [] = Some res" by simp
  then show ?case by (intro exI)
next
  case (Cons x xs)
  show ?case
  proof (cases "cls_match c x \<and> star c k (is_word x) xs \<noteq> None")
    case True
    with Cons.prems have "star c k (is_word x) xs = Some res" by (auto split: option.splits)
    from Cons.IH[OF this] obtain w' u s' where "xs = u @ s'" "k w' s' = Some res" by blast
    then have "x # xs = (x # u) @ s' \<and> k w' s' = Some res" by simp
    then show ?thesis by (intro exI)
  next
    case False
    with Cons.prems have "k w (x # xs) = Some res" by (auto split: option.splits if_splits)
    then have "x # xs = [] @ (x # xs) \<and> k w (x # xs) = Some res" by simp
    then show ?thesis by (intro exI)
  qed
qed

lemma lazy_star_cont:
  "lazy_star c k w s = Some res \<Longrightarrow> \<exists>w' u s'. s = u @ s' \<and> k w' s' = Some res"
proof (induction s arbitrary: w)
  case Nil
  then have "[] = [] @ [] \<and> k w [] = Some res" by simp
  then show ?case by (intro exI)
next
  case (Cons x xs)
  show ?case
  proof (cases "k w (x # xs)")
    case (Some a)
    with Cons.prems have "k w (x # xs) = Some res" by simp
    then have "x # xs = [] @ (x # xs) \<and> k w (x # xs) = Some res" by simp
    then show ?thesis by (intro exI)
  next
    case None
    with Cons.prems have "lazy_star c k (is_word x) xs = Some res" by (auto split: if_splits)
    from Cons.IH[OF this] obtain w' u s' where "xs = u @ s'" "k w' s' = Some res" by blast
    then have "x # xs = (x # u) @ s' \<and> k w' s' = Some res" by simp
    then show ?thesis by (intro exI)
  qed
qed


lemma m_cont:
  "m r w s g k = Some res \<Longrightarrow>
   \<exists>w' u s' g'. s = u @ s' \<and> minlen r \<le> length u \<and> k w' s' g' = Some res
      \<and> (\<forall>n. g n \<noteq> None \<or> n \<in> set (captures r) \<longrightarrow> g' n \<noteq> None)"
proof (induction r arbitrary: w s g k res)
  case Eps
  then have "s = [] @ s \<and> minlen Eps \<le> length ([] :: string) \<and> k w s g = Some res
      \<and> (\<forall>n. g n \<noteq> None \<or> n \<in> set (captures Eps) \<longrightarrow> g n \<noteq> None)" by simp
  then show ?case by (intro exI)
next
  case (Atom c)
  then obtain x xs where s: "s = x # xs" and k: "k (is_word x) xs g = Some res"
    by (auto split: list.splits if_splits)
  then have "s = [x] @ xs \<and> minlen (Atom c) \<le> length [x] \<and> k (is_word x) xs g = Some res
      \<and> (\<forall>n. g n \<noteq> None \<or> n \<in> set (captures (Atom c)) \<longrightarrow> g n \<noteq> None)" by simp
  then show ?case by (intro exI)
next
  case (Seq a b)
  from Seq.prems have "m a w s g (\<lambda>w' s' g'. m b w' s' g' k) = Some res" by simp
  from Seq.IH(1)[OF this] obtain w1 u1 s1 g1 where
    1: "s = u1 @ s1" "minlen a \<le> length u1" "m b w1 s1 g1 k = Some res"
       "\<forall>n. g n \<noteq> None \<or> n \<in> set (captures a) \<longrightarrow> g1 n \<noteq> None" by blast
  from Seq.IH(2)[OF 1(3)] obtain w2 u2 s2 g2 where
    2: "s1 = u2 @ s2" "minlen b \<le> length u2" "k w2 s2 g2 = Some res"
       "\<forall>n. g1 n \<noteq> None \<or> n \<in> set (captures b) \<longrightarrow> g2 n \<noteq> None" by blast
  have "s = (u1 @ u2) @ s2" using 1(1) 2(1) by simp
  moreover have "minlen (Seq a b) \<le> length (u1 @ u2)" using 1(2) 2(2) by simp
  moreover have "\<forall>n. g n \<noteq> None \<or> n \<in> set (captures (Seq a b)) \<longrightarrow> g2 n \<noteq> None"
    using 1(4) 2(4) by auto
  ultimately have "s = (u1 @ u2) @ s2 \<and> minlen (Seq a b) \<le> length (u1 @ u2) \<and> k w2 s2 g2 = Some res
      \<and> (\<forall>n. g n \<noteq> None \<or> n \<in> set (captures (Seq a b)) \<longrightarrow> g2 n \<noteq> None)"
    using 2(3) by simp
  then show ?case by (intro exI)
next
  case (Alt a b)
  show ?case
  proof (cases "m a w s g k")
    case None
    with Alt.prems have "m b w s g k = Some res" by simp
    from Alt.IH(2)[OF this] obtain w' u s' g' where
      1: "s = u @ s'" "minlen b \<le> length u" "k w' s' g' = Some res"
      "\<forall>n. g n \<noteq> None \<or> n \<in> set (captures b) \<longrightarrow> g' n \<noteq> None" by blast
    have "minlen (Alt a b) \<le> length u" using 1(2) by simp
    moreover have "\<forall>n. g n \<noteq> None \<or> n \<in> set (captures (Alt a b)) \<longrightarrow> g' n \<noteq> None"
      using 1(4) by auto
    ultimately have "s = u @ s' \<and> minlen (Alt a b) \<le> length u \<and> k w' s' g' = Some res
      \<and> (\<forall>n. g n \<noteq> None \<or> n \<in> set (captures (Alt a b)) \<longrightarrow> g' n \<noteq> None)"
      using 1(1,3) by simp
    then show ?thesis by (intro exI)
  next
    case (Some x)
    with Alt.prems have "m a w s g k = Some res" by simp
    from Alt.IH(1)[OF this] obtain w' u s' g' where
      1: "s = u @ s'" "minlen a \<le> length u" "k w' s' g' = Some res"
      "\<forall>n. g n \<noteq> None \<or> n \<in> set (captures a) \<longrightarrow> g' n \<noteq> None" by blast
    have "minlen (Alt a b) \<le> length u" using 1(2) by simp
    moreover have "\<forall>n. g n \<noteq> None \<or> n \<in> set (captures (Alt a b)) \<longrightarrow> g' n \<noteq> None"
      using 1(4) by auto
    ultimately have "s = u @ s' \<and> minlen (Alt a b) \<le> length u \<and> k w' s' g' = Some res
      \<and> (\<forall>n. g n \<noteq> None \<or> n \<in> set (captures (Alt a b)) \<longrightarrow> g' n \<noteq> None)"
      using 1(1,3) by simp
    then show ?thesis by (intro exI)
  qed
next
  case (Star c)
  then have "star c (\<lambda>w' s'. k w' s' g) w s = Some res" by simp
  from star_cont[OF this] obtain w' u s' where "s = u @ s'" "k w' s' g = Some res" by blast
  then have "s = u @ s' \<and> minlen (Star c) \<le> length u \<and> k w' s' g = Some res
      \<and> (\<forall>n. g n \<noteq> None \<or> n \<in> set (captures (Star c)) \<longrightarrow> g n \<noteq> None)" by simp
  then show ?case by (intro exI)
next
  case (LazyStar c)
  then have "lazy_star c (\<lambda>w' s'. k w' s' g) w s = Some res" by simp
  from lazy_star_cont[OF this] obtain w' u s' where "s = u @ s'" "k w' s' g = Some res" by blast
  then have "s = u @ s' \<and> minlen (LazyStar c) \<le> length u \<and> k w' s' g = Some res
      \<and> (\<forall>n. g n \<noteq> None \<or> n \<in> set (captures (LazyStar c)) \<longrightarrow> g n \<noteq> None)" by simp
  then show ?case by (intro exI)
next
  case (Opt a)
  show ?case
  proof (cases "m a w s g k")
    case None
    with Opt.prems have "s = [] @ s \<and> minlen (Opt a) \<le> length ([] :: string) \<and> k w s g = Some res
      \<and> (\<forall>n. g n \<noteq> None \<or> n \<in> set (captures (Opt a)) \<longrightarrow> g n \<noteq> None)" by simp
    then show ?thesis by (intro exI)
  next
    case (Some x)
    with Opt.prems have "m a w s g k = Some res" by simp
    from Opt.IH[OF this] obtain w' u s' g' where
      1: "s = u @ s'" "k w' s' g' = Some res"
         "\<forall>n. g n \<noteq> None \<or> n \<in> set (captures a) \<longrightarrow> g' n \<noteq> None" by blast
    then have "s = u @ s' \<and> minlen (Opt a) \<le> length u \<and> k w' s' g' = Some res
      \<and> (\<forall>n. g n \<noteq> None \<or> n \<in> set (captures (Opt a)) \<longrightarrow> g' n \<noteq> None)" by simp
    then show ?thesis by (intro exI)
  qed
next
  case (Grp i a)
  from Grp.prems
  have "m a w s g (\<lambda>w' s' g'. k w' s' (g'(i \<mapsto> take (length s - length s') s))) = Some res"
    by simp
  from Grp.IH[OF this] obtain w' u s' g' where
    1: "s = u @ s'" "minlen a \<le> length u"
       "k w' s' (g'(i \<mapsto> take (length s - length s') s)) = Some res"
       "\<forall>n. g n \<noteq> None \<or> n \<in> set (captures a) \<longrightarrow> g' n \<noteq> None" by blast
  have "\<forall>n. g n \<noteq> None \<or> n \<in> set (captures (Grp i a))
          \<longrightarrow> (g'(i \<mapsto> take (length s - length s') s)) n \<noteq> None"
    using 1(4) by auto
  then have "s = u @ s' \<and> minlen (Grp i a) \<le> length u
      \<and> k w' s' (g'(i \<mapsto> take (length s - length s') s)) = Some res
      \<and> (\<forall>n. g n \<noteq> None \<or> n \<in> set (captures (Grp i a))
          \<longrightarrow> (g'(i \<mapsto> take (length s - length s') s)) n \<noteq> None)"
    using 1(1,2,3) by simp
  then show ?case by (intro exI)
next
  case WordB
  then have "s = [] @ s \<and> minlen WordB \<le> length ([] :: string) \<and> k w s g = Some res
      \<and> (\<forall>n. g n \<noteq> None \<or> n \<in> set (captures WordB) \<longrightarrow> g n \<noteq> None)"
    by (simp split: if_splits)
  then show ?case by (intro exI)
next
  case (NotAhead c)
  then have "s = [] @ s \<and> minlen (NotAhead c) \<le> length ([] :: string) \<and> k w s g = Some res
      \<and> (\<forall>n. g n \<noteq> None \<or> n \<in> set (captures (NotAhead c)) \<longrightarrow> g n \<noteq> None)"
    by (simp split: list.splits if_splits)
  then show ?case by (intro exI)
qed

lemma match_at_Some:
  assumes "match_at r w s = Some (w', s', g')"
  shows "\<exists>u. s = u @ s' \<and> minlen r \<le> length u" and "\<forall>n \<in> set (captures r). g' n \<noteq> None"
proof -
  from assms have "m r w s (\<lambda>_. None) (\<lambda>w' s' g'. Some (w', s', g')) = Some (w', s', g')"
    by (simp add: match_at_def)
  from m_cont[OF this] obtain w1 u s1 g1 where
    1: "s = u @ s1" "minlen r \<le> length u" "Some (w1, s1, g1) = Some (w', s', g')"
    "\<forall>n. (\<lambda>_. None) n \<noteq> (None :: string option) \<or> n \<in> set (captures r) \<longrightarrow> g1 n \<noteq> None" by blast
  from 1(3) have "s1 = s'" "g1 = g'" by simp_all
  with 1 show "\<exists>u. s = u @ s' \<and> minlen r \<le> length u" and "\<forall>n \<in> set (captures r). g' n \<noteq> None"
    by auto
qed


section \<open>Literal scenarios\<close>

lemma rewrite_age_int_unsigned:
  "rewrite ''age INT UNSIGNED'' = Inr ''age INTEGER CHECK (INTEGER >= 0)''"
  by code_simp

lemma rewrite_engine_charset:
  "rewrite ''ENGINE=InnoDB DEFAULT CHARSET=utf8'' = Inr '' ''"
  by code_simp

text \<open>
  C1, as stated: the output for \<open>age INT UNSIGNED\<close> contains
  \<open>age UNSIGNED CHECK (UNSIGNED >= 0)\<close>.  It does not.
\<close>

theorem age_int_unsigned_counterexample:
  "\<not> (case rewrite ''age INT UNSIGNED'' of
         Inl e \<Rightarrow> False
       | Inr out \<Rightarrow> contains ''age UNSIGNED CHECK (UNSIGNED >= 0)'' out)"
  unfolding rewrite_age_int_unsigned by code_simp

text \<open>
  C1, amended: for the input \<open>age INT UNSIGNED\<close> the pipeline returns
  \<open>age INTEGER CHECK (INTEGER >= 0)\<close>.  Rule 3 has made \<open>INT\<close> into \<open>INTEGER\<close> before
  rule 5 runs; the pattern of rule 5 then matches once, its first group is \<open>age\<close> with a
  space and its middle group is \<open>INTEGER\<close>, the name used in the CHECK clause.
\<close>

theorem age_int_unsigned_output:
  "rewrite ''age INT UNSIGNED'' = Inr ''age INTEGER CHECK (INTEGER >= 0)''
   \<and> rule3 (sub rule2 (sub rule1 ''age INT UNSIGNED'')) = ''age INTEGER UNSIGNED''
   \<and> map (\<lambda>mt. (fst mt, snd mt 1, snd mt 2)) (finditer unsigned_pattern False ''age INTEGER UNSIGNED'')
       = [(''age INTEGER UNSIGNED'', Some ''age '', Some ''INTEGER'')]"
proof (intro conjI)
  show "rewrite ''age INT UNSIGNED'' = Inr ''age INTEGER CHECK (INTEGER >= 0)''"
    by (rule rewrite_age_int_unsigned)
  show "rule3 (sub rule2 (sub rule1 ''age INT UNSIGNED'')) = ''age INTEGER UNSIGNED''"
    by code_simp
  show "map (\<lambda>mt. (fst mt, snd mt 1, snd mt 2)) (finditer unsigned_pattern False ''age INTEGER UNSIGNED'')
       = [(''age INTEGER UNSIGNED'', Some ''age '', Some ''INTEGER'')]"
    by code_simp
qed

text \<open>
  C3: rule 3 is to turn \<open>INT(precision)\<close> into \<open>INTEGER\<close> without the precision.  The
  second substitution of rule 3 does so on its own, but the first one runs before it and
  makes \<open>INT\<close> into \<open>INTEGER\<close>, after which the second finds nothing: the precision stays.
\<close>

theorem int_precision_kept:
  "sub rule3b ''INT(11)'' = ''INTEGER''
   \<and> rule3 ''INT(11)'' = ''INTEGER(11)''
   \<and> rewrite ''INT(11)'' = Inr ''INTEGER(11)''"
  by code_simp

text \<open>
  C4: \<open>GROUP_CONCAT(name)\<close> becomes \<open>STRING_AGG(name, ',')\<close>, but with a
  \<open>SEPARATOR\<close> clause the first group takes everything up to the closing parenthesis, the
  optional part of the pattern is skipped, and the separator is the default comma.
\<close>

theorem group_concat_separator_swallowed:
  "rewrite (''GROUP_CONCAT(name SEPARATOR '' @ [squote] @ ''; '' @ [squote] @ '')'')
     = Inr (''STRING_AGG(name SEPARATOR '' @ [squote] @ ''; '' @ [squote] @ '', ''
            @ [squote] @ '','' @ [squote] @ '')'')
   \<and> rewrite ''GROUP_CONCAT(name)''
     = Inr (''STRING_AGG(name, '' @ [squote] @ '','' @ [squote] @ '')'')"
  by code_simp

text \<open>
  C5, as stated: the output for \<open>ENGINE=InnoDB DEFAULT CHARSET=utf8\<close> is the empty
  string.  It is not.
\<close>

theorem engine_charset_counterexample:
  "rewrite ''ENGINE=InnoDB DEFAULT CHARSET=utf8'' \<noteq> Inr []"
  unfolding rewrite_engine_charset by simp

text \<open>
  C5, amended: for the input \<open>ENGINE=InnoDB DEFAULT CHARSET=utf8\<close> the pipeline returns
  one space: both clauses are removed and the space between them stays.
\<close>

theorem engine_charset_output:
  "rewrite ''ENGINE=InnoDB DEFAULT CHARSET=utf8'' = Inr '' ''
   \<and> sub rule15a ''ENGINE=InnoDB DEFAULT CHARSET=utf8'' = '' DEFAULT CHARSET=utf8''
   \<and> sub rule15b '' DEFAULT CHARSET=utf8'' = '' ''"
proof (intro conjI)
  show "rewrite ''ENGINE=InnoDB DEFAULT CHARSET=utf8'' = Inr '' ''"
    by (rule rewrite_engine_charset)
  show "sub rule15a ''ENGINE=InnoDB DEFAULT CHARSET=utf8'' = '' DEFAULT CHARSET=utf8''"
    by code_simp
  show "sub rule15b '' DEFAULT CHARSET=utf8'' = '' ''"
    by code_simp
qed

section \<open>The pipeline returns\<close>

text \<open>
  The only step that can raise is the \<open>strip\<close> of a group in rule 5, and the groups it
  strips are set by every match of the pattern.
\<close>

lemma finditer_captures:
  "mt \<in> set (finditer r w s) \<Longrightarrow> n \<in> set (captures r) \<Longrightarrow> snd mt n \<noteq> None"
proof (induction r w s rule: finditer.induct)
  case (1 r w)
  show ?case
  proof (cases "match_at r w []")
    case None
    with 1 show ?thesis by simp
  next
    case (Some st)
    obtain w' s' g where st: "st = (w', s', g)" by (cases st)
    from Some st have "g n \<noteq> None" using match_at_Some(2) "1.prems"(2) by blast
    moreover from Some st "1.prems"(1) have "mt = ([], g)" by simp
    ultimately show ?thesis by simp
  qed
next
  case (2 r w c cs)
  show ?case
  proof (cases "match_at r w (c # cs)")
    case None
    with 2 show ?thesis by simp
  next
    case (Some st)
    obtain w' s' g where st: "st = (w', s', g)" by (cases st)
    from Some st have g: "g n \<noteq> None" using match_at_Some(2) "2.prems"(2) by blast
    show ?thesis
    proof (cases "length s' < length (c # cs)")
      case True
      with Some st "2.prems"(1) have "mt = (take (length (c # cs) - length s') (c # cs), g)
          \<or> mt \<in> set (finditer r w' s')" by simp
      then show ?thesis using g "2.IH"(2)[OF Some st[symmetric] _ True] "2.prems"(2) by auto
    next
      case False
      with Some st "2.prems"(1) have "mt = ([], g) \<or> mt \<in> set (finditer r (is_word c) cs)" by simp
      then show ?thesis using g "2.IH"(3)[OF Some st[symmetric] _ False] "2.prems"(2) by auto
    qed
  qed
qed

lemma captures_unsigned_pattern: "captures unsigned_pattern = [1, 2, 3]"
  by (simp add: unsigned_pattern_def seqs_def plus_def str_i_def)

lemma unsigned_step_returns:
  "snd mt 1 \<noteq> None \<Longrightarrow> snd mt 2 \<noteq> None \<Longrightarrow> \<exists>t. unsigned_step mt q = Inr t"
  by (auto simp: unsigned_step_def Let_def split: option.splits)

lemma unsigned_loop_returns:
  "\<forall>mt \<in> set ms. snd mt 1 \<noteq> None \<and> snd mt 2 \<noteq> None \<Longrightarrow> \<exists>t. unsigned_loop ms q = Inr t"
proof (induction ms arbitrary: q)
  case Nil
  then show ?case by simp
next
  case (Cons mt ms)
  then obtain t where "unsigned_step mt q = Inr t" using unsigned_step_returns[of mt q] by auto
  with Cons show ?case by simp
qed

lemma rule5_returns: "\<exists>t. rule5 s = Inr t"
  unfolding rule5_def
  by (rule unsigned_loop_returns) (auto dest: finditer_captures simp: captures_unsigned_pattern)

lemma rewrite_returns: "\<exists>t. rewrite s = Inr t"
proof -
  obtain t where "rule5 (sub rule4 (rule3 (sub rule2 (sub rule1 s)))) = Inr t"
    using rule5_returns by blast
  then show ?thesis by (simp add: rewrite_def rules_4_16_def)
qed

lemma rules_minlen:
  "1 \<le> minlen (fst rule1)" "1 \<le> minlen (fst rule2)" "1 \<le> minlen (fst rule3a)"
  "1 \<le> minlen (fst rule3b)" "1 \<le> minlen (fst rule4)" "1 \<le> minlen unsigned_pattern"
  "1 \<le> minlen (fst rule6)" "1 \<le> minlen (fst rule7)" "1 \<le> minlen (fst rule8)"
  "1 \<le> minlen (fst rule9)" "1 \<le> minlen (fst rule10)" "1 \<le> minlen (fst rule11)"
  "1 \<le> minlen (fst rule12)" "1 \<le> minlen (fst rule13a)" "1 \<le> minlen (fst rule13b)"
  "1 \<le> minlen (fst rule14)" "1 \<le> minlen (fst rule15a)" "1 \<le> minlen (fst rule15b)"
  "1 \<le> minlen (fst rule16)"
  by (simp_all add: rule1_def rule2_def rule3a_def rule3b_def rule4_def unsigned_pattern_def
      rule6_def rule7_def rule8_def rule9_def rule10_def rule11_def rule12_def rule13a_def
      rule13b_def rule14_def rule15a_def rule15b_def rule16_def seqs_def str_def str_i_def plus_def)

lemma match_at_shorter:
  assumes "match_at r w s = Some (w', s', g)" "1 \<le> minlen r"
  shows "length s' < length s"
proof -
  from match_at_Some(1)[OF assms(1)] obtain u where u: "s = u @ s'" "minlen r \<le> length u" by blast
  from u(2) assms(2) have "0 < length u" by linarith
  with u(1) show ?thesis by simp
qed

lemma match_at_Nil: "1 \<le> minlen r \<Longrightarrow> match_at r w [] = None"
proof (cases "match_at r w []")
  case (Some st)
  assume "1 \<le> minlen r"
  obtain w' s' g where "st = (w', s', g)" by (cases st)
  with Some match_at_shorter[of r w "[]" w' s' g] \<open>1 \<le> minlen r\<close> show ?thesis by simp
qed simp


subsection \<open>On text over any set of code points\<close>

text \<open>
  The same holds whatever the characters and their classes are, and with the tables
  \<open>latin1\<close> the functions over any set of code points are the ones on 8-bit characters.
\<close>

lemma star_in_cont:
  "star_in A c k w s = Some res \<Longrightarrow> \<exists>w' u s'. s = u @ s' \<and> k w' s' = Some res"
proof (induction s arbitrary: w)
  case Nil
  then have "[] = [] @ [] \<and> k w [] = Some res" by simp
  then show ?case by (intro exI)
next
  case (Cons x xs)
  show ?case
  proof (cases "cls_match_in A c x \<and> star_in A c k (word_char A x) xs \<noteq> None")
    case True
    with Cons.prems have "star_in A c k (word_char A x) xs = Some res" by (auto split: option.splits)
    from Cons.IH[OF this] obtain w' u s' where "xs = u @ s'" "k w' s' = Some res" by blast
    then have "x # xs = (x # u) @ s' \<and> k w' s' = Some res" by simp
    then show ?thesis by (intro exI)
  next
    case False
    with Cons.prems have "k w (x # xs) = Some res" by (auto split: option.splits if_splits)
    then have "x # xs = [] @ (x # xs) \<and> k w (x # xs) = Some res" by simp
    then show ?thesis by (intro exI)
  qed
qed

lemma lazy_star_in_cont:
  "lazy_star_in A c k w s = Some res \<Longrightarrow> \<exists>w' u s'. s = u @ s' \<and> k w' s' = Some res"
proof (induction s arbitrary: w)
  case Nil
  then have "[] = [] @ [] \<and> k w [] = Some res" by simp
  then show ?case by (intro exI)
next
  case (Cons x xs)
  show ?case
  proof (cases "k w (x # xs)")
    case (Some a)
    with Cons.prems have "k w (x # xs) = Some res" by simp
    then have "x # xs = [] @ (x # xs) \<and> k w (x # xs) = Some res" by simp
    then show ?thesis by (intro exI)
  next
    case None
    with Cons.prems have "lazy_star_in A c k (word_char A x) xs = Some res" by (auto split: if_splits)
    from Cons.IH[OF this] obtain w' u s' where "xs = u @ s'" "k w' s' = Some res" by blast
    then have "x # xs = (x # u) @ s' \<and> k w' s' = Some res" by simp
    then show ?thesis by (intro exI)
  qed
qed

lemma m_in_cont:
  "m_in A r w s g k = Some res \<Longrightarrow>
   \<exists>w' u s' g'. s = u @ s' \<and> minlen r \<le> length u \<and> k w' s' g' = Some res
      \<and> (\<forall>n. g n \<noteq> None \<or> n \<in> set (captures r) \<longrightarrow> g' n \<noteq> None)"
proof (induction r arbitrary: w s g k res)
  case Eps
  then have "s = [] @ s \<and> minlen Eps \<le> length ([] :: 'c list) \<and> k w s g = Some res
      \<and> (\<forall>n. g n \<noteq> None \<or> n \<in> set (captures Eps) \<longrightarrow> g n \<noteq> None)" by simp
  then show ?case by (intro exI)
next
  case (Atom c)
  then obtain x xs where s: "s = x # xs" and k: "k (word_char A x) xs g = Some res"
    by (auto split: list.splits if_splits)
  then have "s = [x] @ xs \<and> minlen (Atom c) \<le> length [x] \<and> k (word_char A x) xs g = Some res
      \<and> (\<forall>n. g n \<noteq> None \<or> n \<in> set (captures (Atom c)) \<longrightarrow> g n \<noteq> None)" by simp
  then show ?case by (intro exI)
next
  case (Seq a b)
  from Seq.prems have "m_in A a w s g (\<lambda>w' s' g'. m_in A b w' s' g' k) = Some res" by simp
  from Seq.IH(1)[OF this] obtain w1 u1 s1 g1 where
    1: "s = u1 @ s1" "minlen a \<le> length u1" "m_in A b w1 s1 g1 k = Some res"
       "\<forall>n. g n \<noteq> None \<or> n \<in> set (captures a) \<longrightarrow> g1 n \<noteq> None" by blast
  from Seq.IH(2)[OF 1(3)] obtain w2 u2 s2 g2 where
    2: "s1 = u2 @ s2" "minlen b \<le> length u2" "k w2 s2 g2 = Some res"
       "\<forall>n. g1 n \<noteq> None \<or> n \<in> set (captures b) \<longrightarrow> g2 n \<noteq> None" by blast
  have "s = (u1 @ u2) @ s2" using 1(1) 2(1) by simp
  moreover have "minlen (Seq a b) \<le> length (u1 @ u2)" using 1(2) 2(2) by simp
  moreover have "\<forall>n. g n \<noteq> None \<or> n \<in> set (captures (Seq a b)) \<longrightarrow> g2 n \<noteq> None"
    using 1(4) 2(4) by auto
  ultimately have "s = (u1 @ u2) @ s2 \<and> minlen (Seq a b) \<le> length (u1 @ u2) \<and> k w2 s2 g2 = Some res
      \<and> (\<forall>n. g n \<noteq> None \<or> n \<in> set (captures (Seq a b)) \<longrightarrow> g2 n \<noteq> None)"
    using 2(3) by simp
  then show ?case by (intro exI)
next
  case (Alt a b)
  show ?case
  proof (cases "m_in A a w s g k")
    case None
    with Alt.prems have "m_in A b w s g k = Some res" by simp
    from Alt.IH(2)[OF this] obtain w' u s' g' where
      1: "s = u @ s'" "minlen b \<le> length u" "k w' s' g' = Some res"
      "\<forall>n. g n \<noteq> None \<or> n \<in> set (captures b) \<longrightarrow> g' n \<noteq> None" by blast
    have "minlen (Alt a b) \<le> length u" using 1(2) by simp
    moreover have "\<forall>n. g n \<noteq> None \<or> n \<in> set (captures (Alt a b)) \<longrightarrow> g' n \<noteq> None"
      using 1(4) by auto
    ultimately have "s = u @ s' \<and> minlen (Alt a b) \<le> length u \<and> k w' s' g' = Some res
      \<and> (\<forall>n. g n \<noteq> None \<or> n \<in> set (captures (Alt a b)) \<longrightarrow> g' n \<noteq> None)"
      using 1(1,3) by simp
    then show ?thesis by (intro exI)
  next
    case (Some x)
    with Alt.prems have "m_in A a w s g k = Some res" by simp
    from Alt.IH(1)[OF this] obtain w' u s' g' where
      1: "s = u @ s'" "minlen a \<le> length u" "k w' s' g' = Some res"
      "\<forall>n. g n \<noteq> None \<or> n \<in> set (captures a) \<longrightarrow> g' n \<noteq> None" by blast
    have "minlen (Alt a b) \<le> length u" using 1(2) by simp
    moreover have "\<forall>n. g n \<noteq> None \<or> n \<in> set (captures (Alt a b)) \<longrightarrow> g' n \<noteq> None"
      using 1(4) by auto
    ultimately have "s = u @ s' \<and> minlen (Alt a b) \<le> length u \<and> k w' s' g' = Some res
      \<and> (\<forall>n. g n \<noteq> None \<or> n \<in> set (captures (Alt a b)) \<longrightarrow> g' n \<noteq> None)"
      using 1(1,3) by simp
    then show ?thesis by (intro exI)
  qed
next
  case (Star c)
  then have "star_in A c (\<lambda>w' s'. k w' s' g) w s = Some res" by simp
  from star_in_cont[OF this] obtain w' u s' where "s = u @ s'" "k w' s' g = Some res" by blast
  then have "s = u @ s' \<and> minlen (Star c) \<le> length u \<and> k w' s' g = Some res
      \<and> (\<forall>n. g n \<noteq> None \<or> n \<in> set (captures (Star c)) \<longrightarrow> g n \<noteq> None)" by simp
  then show ?case by (intro exI)
next
  case (LazyStar c)
  then have "lazy_star_in A c (\<lambda>w' s'. k w' s' g) w s = Some res" by simp
  from lazy_star_in_cont[OF this] obtain w' u s' where "s = u @ s'" "k w' s' g = Some res" by blast
  then have "s = u @ s' \<and> minlen (LazyStar c) \<le> length u \<and> k w' s' g = Some res
      \<and> (\<forall>n. g n \<noteq> None \<or> n \<in> set (captures (LazyStar c)) \<longrightarrow> g n \<noteq> None)" by simp
  then show ?case by (intro exI)
next
  case (Opt a)
  show ?case
  proof (cases "m_in A a w s g k")
    case None
    with Opt.prems have "s = [] @ s \<and> minlen (Opt a) \<le> length ([] :: 'c list) \<and> k w s g = Some res
      \<and> (\<forall>n. g n \<noteq> None \<or> n \<in> set (captures (Opt a)) \<longrightarrow> g n \<noteq> None)" by simp
    then show ?thesis by (intro exI)
  next
    case (Some x)
    with Opt.prems have "m_in A a w s g k = Some res" by simp
    from Opt.IH[OF this] obtain w' u s' g' where
      1: "s = u @ s'" "k w' s' g' = Some res"
         "\<forall>n. g n \<noteq> None \<or> n \<in> set (captures a) \<longrightarrow> g' n \<noteq> None" by blast
    then have "s = u @ s' \<and> minlen (Opt a) \<le> length u \<and> k w' s' g' = Some res
      \<and> (\<forall>n. g n \<noteq> None \<or> n \<in> set (captures (Opt a)) \<longrightarrow> g' n \<noteq> None)" by simp
    then show ?thesis by (intro exI)
  qed
next
  case (Grp i a)
  from Grp.prems
  have "m_in A a w s g (\<lambda>w' s' g'. k w' s' (g'(i \<mapsto> take (length s - length s') s))) = Some res"
    by simp
  from Grp.IH[OF this] obtain w' u s' g' where
    1: "s = u @ s'" "minlen a \<le> length u"
       "k w' s' (g'(i \<mapsto> take (length s - length s') s)) = Some res"
       "\<forall>n. g n \<noteq> None \<or> n \<in> set (captures a) \<longrightarrow> g' n \<noteq> None" by blast
  have "\<forall>n. g n \<noteq> None \<or> n \<in> set (captures (Grp i a))
          \<longrightarrow> (g'(i \<mapsto> take (length s - length s') s)) n \<noteq> None"
    using 1(4) by auto
  then have "s = u @ s' \<and> minlen (Grp i a) \<le> length u
      \<and> k w' s' (g'(i \<mapsto> take (length s - length s') s)) = Some res
      \<and> (\<forall>n. g n \<noteq> None \<or> n \<in> set (captures (Grp i a))
          \<longrightarrow> (g'(i \<mapsto> take (length s - length s') s)) n \<noteq> None)"
    using 1(1,2,3) by simp
  then show ?case by (intro exI)
next
  case WordB
  then have "s = [] @ s \<and> minlen WordB \<le> length ([] :: 'c list) \<and> k w s g = Some res
      \<and> (\<forall>n. g n \<noteq> None \<or> n \<in> set (captures WordB) \<longrightarrow> g n \<noteq> None)"
    by (simp split: if_splits)
  then show ?case by (intro exI)
next
  case (NotAhead c)
  then have "s = [] @ s \<and> minlen (NotAhead c) \<le> length ([] :: 'c list) \<and> k w s g = Some res
      \<and> (\<forall>n. g n \<noteq> None \<or> n \<in> set (captures (NotAhead c)) \<longrightarrow> g n \<noteq> None)"
    by (simp split: list.splits if_splits)
  then show ?case by (intro exI)
qed

lemma match_at_in_Some:
  assumes "match_at_in A r w s = Some (w', s', g')"
  shows "\<exists>u. s = u @ s' \<and> minlen r \<le> length u" and "\<forall>n \<in> set (captures r). g' n \<noteq> None"
proof -
  from assms have "m_in A r w s (\<lambda>_. None) (\<lambda>w' s' g'. Some (w', s', g')) = Some (w', s', g')"
    by (simp add: match_at_in_def)
  from m_in_cont[OF this] obtain w1 u s1 g1 where
    1: "s = u @ s1" "minlen r \<le> length u" "Some (w1, s1, g1) = Some (w', s', g')"
    "\<forall>n. (\<lambda>_. None) n \<noteq> (None :: 'c list option) \<or> n \<in> set (captures r) \<longrightarrow> g1 n \<noteq> None" by blast
  from 1(3) have "s1 = s'" "g1 = g'" by simp_all
  with 1 show "\<exists>u. s = u @ s' \<and> minlen r \<le> length u" and "\<forall>n \<in> set (captures r). g' n \<noteq> None"
    by auto
qed

lemma finditer_in_captures:
  "mt \<in> set (finditer_in A r w s) \<Longrightarrow> n \<in> set (captures r) \<Longrightarrow> snd mt n \<noteq> None"
proof (induction A r w s rule: finditer_in.induct)
  case (1 A r w)
  show ?case
  proof (cases "match_at_in A r w []")
    case None
    with 1 show ?thesis by simp
  next
    case (Some st)
    obtain w' s' g where st: "st = (w', s', g)" by (cases st)
    from Some st have "g n \<noteq> None" using match_at_in_Some(2) "1.prems"(2) by blast
    moreover from Some st "1.prems"(1) have "mt = ([], g)" by simp
    ultimately show ?thesis by simp
  qed
next
  case (2 A r w c cs)
  show ?case
  proof (cases "match_at_in A r w (c # cs)")
    case None
    with 2 show ?thesis by simp
  next
    case (Some st)
    obtain w' s' g where st: "st = (w', s', g)" by (cases st)
    from Some st have g: "g n \<noteq> None" using match_at_in_Some(2) "2.prems"(2) by blast
    show ?thesis
    proof (cases "length s' < length (c # cs)")
      case True
      with Some st "2.prems"(1) have "mt = (take (length (c # cs) - length s') (c # cs), g)
          \<or> mt \<in> set (finditer_in A r w' s')" by simp
      then show ?thesis using g "2.IH"(2)[OF Some st[symmetric] _ True] "2.prems"(2) by auto
    next
      case False
      with Some st "2.prems"(1) have "mt = ([], g) \<or> mt \<in> set (finditer_in A r (word_char A c) cs)" by simp
      then show ?thesis using g "2.IH"(3)[OF Some st[symmetric] _ False] "2.prems"(2) by auto
    qed
  qed
qed

lemma unsigned_step_in_returns:
  "snd mt 1 \<noteq> None \<Longrightarrow> snd mt 2 \<noteq> None \<Longrightarrow> \<exists>t. unsigned_step_in A mt q = Inr t"
  by (auto simp: unsigned_step_in_def Let_def split: option.splits)

lemma unsigned_loop_in_returns:
  "\<forall>mt \<in> set ms. snd mt 1 \<noteq> None \<and> snd mt 2 \<noteq> None \<Longrightarrow> \<exists>t. unsigned_loop_in A ms q = Inr t"
proof (induction ms arbitrary: q)
  case Nil
  then show ?case by simp
next
  case (Cons mt ms)
  then obtain t where "unsigned_step_in A mt q = Inr t" using unsigned_step_in_returns[of mt A q] by auto
  with Cons show ?case by simp
qed

lemma rule5_in_returns: "\<exists>t. rule5_in A s = Inr t"
  unfolding rule5_in_def
  by (rule unsigned_loop_in_returns) (auto dest: finditer_in_captures simp: captures_unsigned_pattern)

lemma rewrite_in_returns: "\<exists>t. rewrite_in A s = Inr t"
proof -
  obtain t where "rule5_in A (sub_in A (rule4_in A) (rule3_in A (sub_in A (rule2_in A) (sub_in A (rule1_in A) s)))) = Inr t"
    using rule5_in_returns by blast
  then show ?thesis by (simp add: rewrite_in_def rules_4_16_in_def)
qed

lemma match_at_in_shorter:
  assumes "match_at_in A r w s = Some (w', s', g)" "1 \<le> minlen r"
  shows "length s' < length s"
proof -
  from match_at_in_Some(1)[OF assms(1)] obtain u where u: "s = u @ s'" "minlen r \<le> length u" by blast
  from u(2) assms(2) have "0 < length u" by linarith
  with u(1) show ?thesis by simp
qed

lemma match_at_in_Nil: "1 \<le> minlen r \<Longrightarrow> match_at_in A r w [] = None"
proof (cases "match_at_in A r w []")
  case (Some st)
  assume "1 \<le> minlen r"
  obtain w' s' g where "st = (w', s', g)" by (cases st)
  with Some match_at_in_shorter[of _ r w "[]" w' s' g] \<open>1 \<le> minlen r\<close> show ?thesis by simp
qed simp

lemma rewrite_in_Nil: "rewrite_in A [] = Inr []"
  by (simp add: rewrite_in_def rules_4_16_in_def rules_6_16_in_def rule3_in_def rule5_in_def
      sub_in_def rule1_in_def rule2_in_def rule3a_in_def rule3b_in_def rule4_in_def rule6_in_def
      rule7_in_def rule8_in_def rule9_in_def rule10_in_def rule11_in_def rule12_in_def
      rule13a_in_def rule13b_in_def rule14_in_def rule15a_in_def rule15b_in_def rule16_in_def
      rules_minlen[THEN match_at_in_Nil])

lemma latin1_simps:
  "code_of latin1 = (\<lambda>c. c)" "same_letter latin1 = (\<lambda>a c. lower c = lower a)"
  "word_char latin1 = is_word" "space_char latin1 = is_space" "digit_char latin1 = is_digit"
  by (simp_all add: latin1_def)

lemma text_in_latin1: "text_in latin1 x = x"
  by (simp add: text_in_def latin1_simps)

lemma strip_in_latin1: "strip_in latin1 s = strip s"
  by (simp add: strip_in_def strip_def latin1_simps)

lemma cls_match_in_latin1: "cls_match_in latin1 c x = cls_match c x"
  by (cases c) (simp_all add: latin1_simps)

lemma star_in_latin1: "star_in latin1 c k w s = star c k w s"
  by (induction s arbitrary: w)
     (simp_all add: cls_match_in_latin1 latin1_simps cong: option.case_cong)

lemma lazy_star_in_latin1: "lazy_star_in latin1 c k w s = lazy_star c k w s"
  by (induction s arbitrary: w)
     (simp_all add: cls_match_in_latin1 latin1_simps cong: option.case_cong)

lemma word_after_in_latin1: "word_after_in latin1 s = word_after s"
  by (simp add: word_after_in_def word_after_def latin1_simps cong: list.case_cong)

lemma m_in_latin1: "m_in latin1 r w s g k = m r w s g k"
  by (induction r arbitrary: w s g k)
     (simp_all add: cls_match_in_latin1 star_in_latin1 lazy_star_in_latin1 word_after_in_latin1
        latin1_simps cong: list.case_cong option.case_cong if_cong)

lemma match_at_in_latin1: "match_at_in latin1 r w s = match_at r w s"
  by (simp add: match_at_in_def match_at_def m_in_latin1)

lemma re_sub_in_latin1: "re_sub_in latin1 r f w s = re_sub r f w s"
proof (induction r f w s rule: re_sub.induct)
  case (1 r f w)
  then show ?case by (simp add: match_at_in_latin1)
next
  case (2 r f w c cs)
  show ?case
  proof (cases "match_at r w (c # cs)")
    case None
    with 2(1) show ?thesis by (simp add: match_at_in_latin1 latin1_simps)
  next
    case (Some st)
    obtain w' s' g where st: "st = (w', s', g)" by (cases st)
    show ?thesis
    proof (cases "length s' < length (c # cs)")
      case True
      with 2(2)[OF Some st[symmetric] _ True] Some st show ?thesis
        by (simp add: match_at_in_latin1 latin1_simps)
    next
      case False
      with 2(3)[OF Some st[symmetric] _ False] Some st show ?thesis
        by (simp add: match_at_in_latin1 latin1_simps)
    qed
  qed
qed

lemma finditer_in_latin1: "finditer_in latin1 r w s = finditer r w s"
proof (induction r w s rule: finditer.induct)
  case (1 r w)
  then show ?case by (simp add: match_at_in_latin1)
next
  case (2 r w c cs)
  show ?case
  proof (cases "match_at r w (c # cs)")
    case None
    with 2(1) show ?thesis by (simp add: match_at_in_latin1 latin1_simps)
  next
    case (Some st)
    obtain w' s' g where st: "st = (w', s', g)" by (cases st)
    show ?thesis
    proof (cases "length s' < length (c # cs)")
      case True
      with 2(2)[OF Some st[symmetric] _ True] Some st show ?thesis
        by (simp add: match_at_in_latin1 latin1_simps)
    next
      case False
      with 2(3)[OF Some st[symmetric] _ False] Some st show ?thesis
        by (simp add: match_at_in_latin1 latin1_simps)
    qed
  qed
qed

lemma str_replace_in_same: "str_replace_in old new s = str_replace old new s"
  by (induction old new s rule: str_replace.induct) simp_all

lemma grp_in_same: "grp_in g n = grp g n"
  by (simp add: grp_in_def grp_def)

lemma string_agg_in_latin1: "string_agg_in latin1 = string_agg"
  by (simp add: fun_eq_iff string_agg_in_def string_agg_def text_in_latin1
      cong: option.case_cong if_cong)

lemma sub_in_latin1:
  "sub_in latin1 (rule1_in latin1) s = sub rule1 s"
  "sub_in latin1 (rule2_in latin1) s = sub rule2 s"
  "sub_in latin1 (rule3a_in latin1) s = sub rule3a s"
  "sub_in latin1 (rule3b_in latin1) s = sub rule3b s"
  "sub_in latin1 (rule4_in latin1) s = sub rule4 s"
  "sub_in latin1 (rule6_in latin1) s = sub rule6 s"
  "sub_in latin1 (rule7_in latin1) s = sub rule7 s"
  "sub_in latin1 (rule8_in latin1) s = sub rule8 s"
  "sub_in latin1 (rule9_in latin1) s = sub rule9 s"
  "sub_in latin1 (rule10_in latin1) s = sub rule10 s"
  "sub_in latin1 (rule11_in latin1) s = sub rule11 s"
  "sub_in latin1 (rule12_in latin1) s = sub rule12 s"
  "sub_in latin1 (rule13a_in latin1) s = sub rule13a s"
  "sub_in latin1 (rule13b_in latin1) s = sub rule13b s"
  "sub_in latin1 (rule14_in latin1) s = sub rule14 s"
  "sub_in latin1 (rule15a_in latin1) s = sub rule15a s"
  "sub_in latin1 (rule15b_in latin1) s = sub rule15b s"
  "sub_in latin1 (rule16_in latin1) s = sub rule16 s"
  by (simp_all add: sub_in_def sub_def re_sub_in_latin1 text_in_latin1 grp_in_same
      rule1_in_def rule2_in_def rule3a_in_def rule3b_in_def rule4_in_def rule6_in_def
      rule7_in_def rule8_in_def rule9_in_def rule10_in_def rule11_in_def rule12_in_def
      rule13a_in_def rule13b_in_def rule14_in_def rule15a_in_def rule15b_in_def rule16_in_def
      rule1_def rule2_def rule3a_def rule3b_def rule4_def rule6_def
      rule7_def rule8_def rule9_def rule10_def rule11_def rule12_def
      rule13a_def rule13b_def rule14_def rule15a_def rule15b_def rule16_def
      string_agg_in_latin1)

lemma unsigned_step_in_latin1: "unsigned_step_in latin1 mt q = unsigned_step mt q"
  by (simp add: unsigned_step_in_def unsigned_step_def strip_in_latin1 text_in_latin1
      str_replace_in_same cong: option.case_cong)

lemma unsigned_loop_in_latin1: "unsigned_loop_in latin1 ms q = unsigned_loop ms q"
  by (induction ms arbitrary: q) (simp_all add: unsigned_step_in_latin1 split: sum.splits)

lemma rewrite_in_latin1: "rewrite_in latin1 s = rewrite s"
  by (simp add: rewrite_in_def rewrite_def rules_4_16_in_def rules_4_16_def rules_6_16_in_def
      rules_6_16_def rule3_in_def rule3_def rule5_in_def rule5_def sub_in_latin1
      finditer_in_latin1 unsigned_loop_in_latin1 cong: sum.case_cong)


text \<open>
  C7: for every input text, the empty one included, the pipeline returns a text and raises
  nothing.  This holds for text over any type of characters and with any tables for the
  character classes, so for every Python \<open>str\<close> with the Unicode tables; and with the
  tables \<open>latin1\<close> that pipeline is the one on 8-bit characters.  (Every function of the
  model is total: the recursions of the matcher, of \<open>re_sub\<close>, \<open>finditer\<close> and
  \<open>str_replace\<close> end because the text left gets shorter.)
\<close>

theorem rewrite_total:
  "(\<exists>t. rewrite_in A s = Inr t) \<and> rewrite_in A [] = Inr []
   \<and> (\<exists>t. rewrite s8 = Inr t) \<and> rewrite [] = Inr []
   \<and> rewrite_in latin1 s8 = rewrite s8"
proof (intro conjI)
  show "\<exists>t. rewrite_in A s = Inr t" by (rule rewrite_in_returns)
  show "rewrite_in A [] = Inr []" by (rule rewrite_in_Nil)
  show "\<exists>t. rewrite s8 = Inr t" by (rule rewrite_returns)
  show "rewrite [] = Inr []" by code_simp
  show "rewrite_in latin1 s8 = rewrite s8" by (rule rewrite_in_latin1)
qed

section \<open>Rule 5 replaces every occurrence of the matched text\<close>

lemma take_append_le: "n \<le> length xs \<Longrightarrow> take n (xs @ ys) = take n xs"
  by simp

lemma str_replace_none:
  "old \<noteq> [] \<Longrightarrow> \<not> contains old s \<Longrightarrow> str_replace old new s = s"
  by (induction s) auto

lemma str_replace_skip:
  assumes "old \<noteq> []" and "\<not> contains old (a @ butlast old)"
  shows "str_replace old new (a @ old @ r) = a @ new @ str_replace old new r"
  using assms(2)
proof (induction a)
  case Nil
  from assms(1) obtain c cs where "old = c # cs" by (cases old) auto
  then show ?case by simp
next
  case (Cons x a)
  have len: "length old \<le> length ((x # a) @ butlast old)" by simp
  have "take (length old) ((x # a) @ old @ r) = take (length old) ((x # a) @ butlast old)"
  proof -
    have "(x # a) @ old @ r = ((x # a) @ butlast old) @ (last old # r)"
      using assms(1) by simp
    then show ?thesis using len by (metis append_Nil2 diff_is_0_eq take_0 take_append)
  qed
  moreover from Cons.prems have "take (length old) ((x # a) @ butlast old) \<noteq> old"
    and rest: "\<not> contains old (a @ butlast old)" by simp_all
  ultimately have "take (length old) (x # a @ old @ r) \<noteq> old" by simp
  with assms(1) Cons.IH[OF rest] show ?case by simp
qed

lemma str_replace_join:
  "old \<noteq> [] \<Longrightarrow> segs \<noteq> []
    \<Longrightarrow> list_all (\<lambda>seg. \<not> contains old (seg @ butlast old)) (butlast segs)
    \<Longrightarrow> \<not> contains old (last segs)
    \<Longrightarrow> str_replace old new (join old segs) = join new segs"
proof (induction old segs rule: join.induct)
  case (1 sep)
  then show ?case by simp
next
  case (2 sep x)
  then show ?case using str_replace_none by simp
next
  case (3 sep x y ys)
  then show ?case using str_replace_skip[of sep x new "join sep (y # ys)"] by simp
qed

text \<open>
  C2, as stated: a step of rule 5 replaces only the first occurrence of the matched text.
  On \<open>a b UNSIGNED,a b UNSIGNED\<close> the pattern matches twice with the same text, and the
  step for the first match rewrites both places, where replacing the first occurrence only
  would leave the second.
\<close>

theorem unsigned_step_first_only_counterexample:
  "map fst (finditer unsigned_pattern False ''a b UNSIGNED,a b UNSIGNED'')
      = [''a b UNSIGNED'', ''a b UNSIGNED'']
   \<and> unsigned_step (hd (finditer unsigned_pattern False ''a b UNSIGNED,a b UNSIGNED''))
        ''a b UNSIGNED,a b UNSIGNED''
      = Inr ''a b CHECK (b >= 0),a b CHECK (b >= 0)''
   \<and> replace_first ''a b UNSIGNED'' ''a b CHECK (b >= 0)'' ''a b UNSIGNED,a b UNSIGNED''
      = ''a b CHECK (b >= 0),a b UNSIGNED''"
  by code_simp

lemma contains_length: "contains old s \<Longrightarrow> length old \<le> length s"
proof (induction s)
  case Nil
  then show ?case by simp
next
  case (Cons c cs)
  from Cons.prems have "take (length old) (c # cs) = old \<or> contains old cs" by simp
  then show ?case
  proof
    assume "take (length old) (c # cs) = old"
    then have "length (take (length old) (c # cs)) = length old" by simp
    then show ?thesis by (simp add: min_def split: if_splits)
  next
    assume "contains old cs"
    with Cons.IH show ?thesis by simp
  qed
qed

lemma first_occurrence:
  assumes "old \<noteq> []"
  shows "contains old s \<Longrightarrow> \<exists>a r. s = a @ old @ r \<and> \<not> contains old (a @ butlast old)"
proof (induction s)
  case Nil
  with assms show ?case by simp
next
  case (Cons c cs)
  show ?case
  proof (cases "take (length old) (c # cs) = old")
    case True
    then have "c # cs = [] @ old @ drop (length old) (c # cs)"
      by (metis append_Nil append_take_drop_id)
    moreover have "\<not> contains old ([] @ butlast old)"
    proof
      assume "contains old ([] @ butlast old)"
      then have "contains old (butlast old)" by simp
      from contains_length[OF this] have "length old \<le> length old - 1"
        by (simp only: length_butlast)
      moreover have "0 < length old" using assms by simp
      ultimately show False by linarith
    qed
    ultimately show ?thesis by blast
  next
    case False
    with Cons.prems have "contains old cs" by simp
    from Cons.IH[OF this] obtain a r where cs: "cs = a @ old @ r"
      and no: "\<not> contains old (a @ butlast old)" by blast
    have "(c # a) @ old @ r = ((c # a) @ butlast old) @ (last old # r)" using assms by simp
    moreover have "length old \<le> length ((c # a) @ butlast old)" by simp
    ultimately have "take (length old) ((c # a) @ old @ r) = take (length old) ((c # a) @ butlast old)"
      by (simp only: take_append_le)
    with False cs have "take (length old) ((c # a) @ butlast old) \<noteq> old" by simp
    with no have "\<not> contains old ((c # a) @ butlast old)" by simp
    moreover have "c # cs = (c # a) @ old @ r" using cs by simp
    ultimately show ?thesis by blast
  qed
qed

lemma cut_exists:
  assumes "old \<noteq> []"
  shows "\<exists>segs. cut_at old segs \<and> s = join old segs"
proof (induction s rule: length_induct)
  case (1 s)
  show ?case
  proof (cases "contains old s")
    case False
    then have "cut_at old [s] \<and> s = join old [s]" by (simp add: cut_at_def)
    then show ?thesis by blast
  next
    case True
    from first_occurrence[OF assms True] obtain a r where s: "s = a @ old @ r"
      and no: "\<not> contains old (a @ butlast old)" by blast
    have "length r < length s" using s assms by simp
    with 1 obtain segs where c: "cut_at old segs" and r: "r = join old segs" by blast
    from c obtain y ys where segs: "segs = y # ys" by (cases segs) (auto simp: cut_at_def)
    have "cut_at old (a # segs)" using c no by (simp add: cut_at_def segs)
    moreover have "s = join old (a # segs)" using s r by (simp add: segs)
    ultimately show ?thesis by blast
  qed
qed

lemma unsigned_step_join:
  assumes "snd mt 1 = Some g1" and "snd mt 2 = Some g2" and "fst mt \<noteq> []"
    and "cut_at (fst mt) segs"
  shows "unsigned_step mt (join (fst mt) segs)
    = Inr (join (strip g1 @ '' '' @ strip g2 @ '' CHECK ('' @ strip g2 @ '' >= 0)'') segs)"
  using assms by (simp add: unsigned_step_def Let_def str_replace_join cut_at_def)

lemma finditer_nonempty:
  "mt \<in> set (finditer r w s) \<Longrightarrow> 1 \<le> minlen r \<Longrightarrow> fst mt \<noteq> []"
proof (induction r w s rule: finditer.induct)
  case (1 r w)
  then show ?case by (simp add: match_at_Nil)
next
  case (2 r w c cs)
  show ?case
  proof (cases "match_at r w (c # cs)")
    case None
    with 2 show ?thesis by simp
  next
    case (Some st)
    obtain w' s' g where st: "st = (w', s', g)" by (cases st)
    from Some st have sh: "length s' < length (c # cs)"
      using match_at_shorter "2.prems"(2) by blast
    with Some st "2.prems"(1) have "mt = (take (length (c # cs) - length s') (c # cs), g)
        \<or> mt \<in> set (finditer r w' s')" by simp
    then show ?thesis
    proof
      assume "mt = (take (length (c # cs) - length s') (c # cs), g)"
      with sh show ?thesis by simp
    next
      assume "mt \<in> set (finditer r w' s')"
      then show ?thesis using "2.IH"(2)[OF Some st[symmetric] _ sh] "2.prems"(2) by simp
    qed
  qed
qed

lemma unsigned_matches:
  assumes "mt \<in> set (finditer unsigned_pattern w s)"
  shows "\<exists>g1 g2. snd mt 1 = Some g1 \<and> snd mt 2 = Some g2 \<and> fst mt \<noteq> []"
proof -
  from finditer_captures[OF assms, of 1] obtain g1 where 1: "snd mt 1 = Some g1"
    by (auto simp: captures_unsigned_pattern)
  from finditer_captures[OF assms, of 2] obtain g2 where 2: "snd mt 2 = Some g2"
    by (auto simp: captures_unsigned_pattern)
  from finditer_nonempty[OF assms rules_minlen(6)] have "fst mt \<noteq> []" .
  with 1 2 have "snd mt 1 = Some g1 \<and> snd mt 2 = Some g2 \<and> fst mt \<noteq> []" by simp
  then show ?thesis by (intro exI)
qed

text \<open>
  C2, amended: a step of rule 5 replaces every occurrence of the matched text in the working
  text, found from the left and not overlapping, not only the first.  For every match that
  the iterator of rule 5 yields, groups 1 and 2 are set; every working text is a list of
  pieces with the matched text between them, cut where a scan from the left finds the
  matched text; and the step returns the same pieces with the replacement between them.
\<close>

theorem unsigned_step_replaces_all:
  assumes "mt \<in> set (finditer unsigned_pattern False s)"
  shows "\<exists>g1 g2. snd mt 1 = Some g1 \<and> snd mt 2 = Some g2
       \<and> (\<exists>segs. cut_at (fst mt) segs \<and> psql_queries = join (fst mt) segs)
       \<and> (\<forall>segs. cut_at (fst mt) segs \<and> psql_queries = join (fst mt) segs \<longrightarrow>
            unsigned_step mt psql_queries
              = Inr (join (strip g1 @ '' '' @ strip g2 @ '' CHECK ('' @ strip g2 @ '' >= 0)'') segs))"
proof -
  from unsigned_matches[OF assms] obtain g1 g2 where
    g: "snd mt 1 = Some g1" "snd mt 2 = Some g2" "fst mt \<noteq> []" by blast
  have "snd mt 1 = Some g1 \<and> snd mt 2 = Some g2
       \<and> (\<exists>segs. cut_at (fst mt) segs \<and> psql_queries = join (fst mt) segs)
       \<and> (\<forall>segs. cut_at (fst mt) segs \<and> psql_queries = join (fst mt) segs \<longrightarrow>
            unsigned_step mt psql_queries
              = Inr (join (strip g1 @ '' '' @ strip g2 @ '' CHECK ('' @ strip g2 @ '' >= 0)'') segs))"
    using g cut_exists[OF g(3), of psql_queries] unsigned_step_join[OF g] by blast
  then show ?thesis by (intro exI)
qed

theorem unsigned_step_replaces_all_witness:
  "hd (finditer unsigned_pattern False ''a b UNSIGNED,a b UNSIGNED,a b UNSIGNED'')
      \<in> set (finditer unsigned_pattern False ''a b UNSIGNED,a b UNSIGNED,a b UNSIGNED'')
   \<and> unsigned_step (hd (finditer unsigned_pattern False ''a b UNSIGNED,a b UNSIGNED,a b UNSIGNED''))
        ''a b UNSIGNED,a b UNSIGNED,a b UNSIGNED''
      = Inr ''a b CHECK (b >= 0),a b CHECK (b >= 0),a b CHECK (b >= 0)''"
proof -
  let ?s = "''a b UNSIGNED,a b UNSIGNED,a b UNSIGNED''"
  let ?mt = "hd (finditer unsigned_pattern False ?s)"
  let ?q = "''a b UNSIGNED,a b UNSIGNED,a b UNSIGNED''"
  let ?segs = "[[], '','', '','', []] :: string list"
  have ne: "finditer unsigned_pattern False ?s \<noteq> []" by code_simp
  then have mem: "?mt \<in> set (finditer unsigned_pattern False ?s)" by simp
  have f: "fst ?mt = ''a b UNSIGNED''" by code_simp
  have g1: "snd ?mt 1 = Some ''a ''" by code_simp
  have g2: "snd ?mt 2 = Some ''b''" by code_simp
  have c: "cut_at (fst ?mt) ?segs" unfolding f by code_simp
  have j: "?q = join (fst ?mt) ?segs" unfolding f by code_simp
  from unsigned_step_replaces_all[OF mem, of ?q] g1 g2
  have "\<forall>segs. cut_at (fst ?mt) segs \<and> ?q = join (fst ?mt) segs \<longrightarrow>
      unsigned_step ?mt ?q
        = Inr (join (strip ''a '' @ '' '' @ strip ''b'' @ '' CHECK ('' @ strip ''b'' @ '' >= 0)'') segs)"
    by auto
  with c j have "unsigned_step ?mt ?q
      = Inr (join (strip ''a '' @ '' '' @ strip ''b'' @ '' CHECK ('' @ strip ''b'' @ '' >= 0)'') ?segs)"
    by blast
  moreover have "strip ''a '' = ''a''" "strip ''b'' = ''b''" by code_simp+
  ultimately show ?thesis using mem by simp
qed

section \<open>A second pass\<close>




section \<open>Rule 16\<close>

text \<open>
  The pattern of rule 16 matches where two hyphens and a whitespace character stand, so
  the substitution is \<open>space_after_dashes\<close>.
\<close>

lemma match_at_rule16:
  "match_at (fst rule16) w s =
     (case s of
        a # b # c # cs \<Rightarrow>
          if a = CHR ''-'' \<and> b = CHR ''-'' \<and> is_space c then Some (is_word c, cs, \<lambda>_. None)
          else None
      | _ \<Rightarrow> None)"
  by (simp add: rule16_def seqs_def str_def match_at_def split: list.splits)

lemma re_sub_rule16: "re_sub (fst rule16) (snd rule16) w s = space_after_dashes s"
proof (induction s arbitrary: w rule: space_after_dashes.induct)
  case (1 a b c cs)
  show ?case
  proof (cases "a = CHR ''-'' \<and> b = CHR ''-'' \<and> is_space c")
    case True
    then have "match_at (fst rule16) w (a # b # c # cs) = Some (is_word c, cs, \<lambda>_. None)"
      by (simp add: match_at_rule16)
    then have "re_sub (fst rule16) (snd rule16) w (a # b # c # cs)
        = snd rule16 [a, b, c] (\<lambda>_. None) @ re_sub (fst rule16) (snd rule16) (is_word c) cs"
      by simp
    with True "1.IH"(1) show ?thesis by (simp add: rule16_def)
  next
    case False
    then have "match_at (fst rule16) w (a # b # c # cs) = None"
      by (auto simp add: match_at_rule16)
    then have "re_sub (fst rule16) (snd rule16) w (a # b # c # cs)
        = a # re_sub (fst rule16) (snd rule16) (is_word a) (b # c # cs)"
      by simp
    with False "1.IH"(2) show ?thesis by auto
  qed
qed (simp_all add: match_at_rule16)

lemma sub_rule16: "sub rule16 s = space_after_dashes s"
  by (simp add: sub_def re_sub_rule16)

lemma space_after_dashes_length: "length (space_after_dashes s) = length s"
  by (induction s rule: space_after_dashes.induct) auto

lemma hyphen_not_space: "\<not> is_space CHR ''-''"
  by (simp add: is_space_code)

lemma space_after_dashes_nth:
  "i < length s \<Longrightarrow> space_after_dashes s ! i =
     (if 2 \<le> i \<and> s ! (i - 2) = CHR ''-'' \<and> s ! (i - 1) = CHR ''-'' \<and> is_space (s ! i)
      then CHR '' '' else s ! i)"
proof (induction s arbitrary: i rule: space_after_dashes.induct)
  case (1 a b c cs)
  show ?case
  proof (cases "a = CHR ''-'' \<and> b = CHR ''-'' \<and> is_space c")
    case True
    note yes = this
    then have sad: "space_after_dashes (a # b # c # cs) = ''-- '' @ space_after_dashes cs" by simp
    have "i = 0 \<or> i = 1 \<or> i = 2 \<or> i = 3 \<or> i = 4 \<or> (\<exists>j. i = j + 5)" by presburger
    then consider "i = 0" | "i = 1" | "i = 2" | "i = 3" | "i = 4" | j where "i = j + 5"
      by blast
    then show ?thesis
    proof cases
      case 1 with yes show ?thesis by simp
    next
      case 2 with yes show ?thesis by simp
    next
      case 3 with yes show ?thesis by simp
    next
      case 4
      with "1.prems" have "0 < length cs" by simp
      from "1.IH"(1)[OF yes this] have "space_after_dashes cs ! 0 = cs ! 0" by simp
      moreover have "c \<noteq> CHR ''-''" using yes hyphen_not_space by auto
      ultimately show ?thesis unfolding sad 4 by (simp add: numeral_3_eq_3)
    next
      case 5
      with "1.prems" have "1 < length cs" by simp
      from "1.IH"(1)[OF yes this] have "space_after_dashes cs ! 1 = cs ! 1" by simp
      moreover have "c \<noteq> CHR ''-''" using yes hyphen_not_space by auto
      ultimately show ?thesis unfolding sad 5 by (simp add: numeral_eq_Suc)
    next
      case 6
      with "1.prems" have "j + 2 < length cs" by simp
      from "1.IH"(1)[OF yes this]
      have "space_after_dashes cs ! (j + 2) =
        (if cs ! j = CHR ''-'' \<and> cs ! (j + 1) = CHR ''-'' \<and> is_space (cs ! (j + 2))
         then CHR '' '' else cs ! (j + 2))" by simp
      then show ?thesis unfolding sad 6 by (simp add: numeral_eq_Suc)
    qed
  next
    case False
    note no = this
    then have sad: "space_after_dashes (a # b # c # cs) = a # space_after_dashes (b # c # cs)"
      by auto
    have "i = 0 \<or> i = 1 \<or> i = 2 \<or> (\<exists>j. i = j + 3)" by presburger
    then consider "i = 0" | "i = 1" | "i = 2" | j where "i = j + 3" by blast
    then show ?thesis
    proof cases
      case 1 then show ?thesis unfolding sad by simp
    next
      case 2
      from "1.IH"(2)[OF no, of 0] have "space_after_dashes (b # c # cs) ! 0 = b" by simp
      then show ?thesis unfolding sad 2 by simp
    next
      case 3
      from "1.IH"(2)[OF no, of 1] have "space_after_dashes (b # c # cs) ! 1 = c" by simp
      with no show ?thesis unfolding sad 3 by (auto simp: numeral_2_eq_2)
    next
      case 4
      with "1.prems" have "j + 2 < length (b # c # cs)" by simp
      from "1.IH"(2)[OF no this]
      have "space_after_dashes (b # c # cs) ! (j + 2) =
        (if (b # c # cs) ! j = CHR ''-'' \<and> (b # c # cs) ! (j + 1) = CHR ''-''
            \<and> is_space ((b # c # cs) ! (j + 2))
         then CHR '' '' else (b # c # cs) ! (j + 2))" by simp
      then show ?thesis unfolding sad 4 by (simp add: numeral_eq_Suc)
    qed
  qed
qed (auto simp: less_Suc_eq numeral_2_eq_2)


text \<open>
  C10, as stated, ends: a line ending in a double hyphen and a space, plus the newline, is
  joined to the following line.  There the character after the double hyphen is the space:
  it is replaced by itself, and the newline stays.
\<close>

theorem dashes_space_newline_counterexample:
  "sub rule16 (''x -- '' @ [newline] @ ''y'') = ''x -- '' @ [newline] @ ''y''
   \<and> rewrite (''x -- '' @ [newline] @ ''y'') = Inr (''x -- '' @ [newline] @ ''y'')"
  by code_simp

text \<open>
  C10, amended: rule 16 matches a double hyphen followed by any whitespace character.  In
  every text, a whitespace character that stands right after a double hyphen becomes a
  space, and no other character changes; so a line that ends in a double hyphen is joined
  to the following line.
\<close>

theorem rule16_any_whitespace:
  "length (sub rule16 s) = length s
   \<and> (\<forall>i < length s. sub rule16 s ! i =
        (if 2 \<le> i \<and> s ! (i - 2) = CHR ''-'' \<and> s ! (i - 1) = CHR ''-'' \<and> is_space (s ! i)
         then CHR '' '' else s ! i))"
  by (simp add: sub_rule16 space_after_dashes_length space_after_dashes_nth)

theorem rule16_any_whitespace_witness:
  "(4::nat) < length (''x --'' @ [newline] @ ''y'')
   \<and> sub rule16 (''x --'' @ [newline] @ ''y'') ! 4 = CHR '' ''
   \<and> sub rule16 (''x --'' @ [newline] @ ''y'') = ''x -- y''"
proof -
  have sp: "is_space newline" by (simp add: is_space_code)
  have "(4::nat) < length (''x --'' @ [newline] @ ''y'')" by simp
  moreover from rule16_any_whitespace[of "''x --'' @ [newline] @ ''y''"] this
  have "sub rule16 (''x --'' @ [newline] @ ''y'') ! 4 =
        (if 2 \<le> (4::nat) \<and> (''x --'' @ [newline] @ ''y'') ! (4 - 2) = CHR ''-''
            \<and> (''x --'' @ [newline] @ ''y'') ! (4 - 1) = CHR ''-''
            \<and> is_space ((''x --'' @ [newline] @ ''y'') ! 4)
         then CHR '' '' else (''x --'' @ [newline] @ ''y'') ! 4)"
    by blast
  then have "sub rule16 (''x --'' @ [newline] @ ''y'') ! 4 = CHR '' ''"
    using sp by (simp add: numeral_eq_Suc)
  moreover have "sub rule16 (''x --'' @ [newline] @ ''y'') = ''x -- y''" by code_simp
  ultimately show ?thesis by blast
qed

section \<open>Substitution between separators\<close>

text \<open>
  A character that a pattern cannot take, and that it sees as it sees the end of the text,
  cuts the text in two parts that the substitution handles one after the other.
\<close>

lemma star_blind:
  assumes "\<not> cls_match c d" and "\<And>w' u'. k1 w' (u' @ d # v) = k2 w' u'"
  shows "star c k1 w (u @ d # v) = star c k2 w u"
proof (induction u arbitrary: w)
  case Nil
  show ?case using assms(1) assms(2)[of _ "[]"] by (simp split: option.splits)
next
  case (Cons x xs)
  have "k1 w (x # xs @ d # v) = k2 w (x # xs)" using assms(2)[of w "x # xs"] by simp
  with Cons show ?case by (simp split: option.splits)
qed

lemma lazy_star_blind:
  assumes "\<not> cls_match c d" and "\<And>w' u'. k1 w' (u' @ d # v) = k2 w' u'"
  shows "lazy_star c k1 w (u @ d # v) = lazy_star c k2 w u"
proof (induction u arbitrary: w)
  case Nil
  show ?case using assms(1) assms(2)[of _ "[]"] by (simp split: option.splits)
next
  case (Cons x xs)
  have "k1 w (x # xs @ d # v) = k2 w (x # xs)" using assms(2)[of w "x # xs"] by simp
  with Cons show ?case by (simp split: option.splits)
qed

lemma m_blind:
  "blind d r \<Longrightarrow> (\<And>w' u' g'. k1 w' (u' @ d # v) g' = k2 w' u' g')
     \<Longrightarrow> m r w (u @ d # v) g k1 = m r w u g k2"
proof (induction r arbitrary: w u g k1 k2)
  case Eps
  then show ?case by simp
next
  case (Atom c)
  show ?case
  proof (cases u)
    case Nil
    with Atom.prems(1) show ?thesis by simp
  next
    case (Cons x xs)
    with Atom.prems(2)[of "is_word x" xs g] show ?thesis by simp
  qed
next
  case (Seq a b)
  have "\<And>w' u' g'. m b w' (u' @ d # v) g' k1 = m b w' u' g' k2"
    using Seq.IH(2) Seq.prems by simp
  then have "m a w (u @ d # v) g (\<lambda>w' s' g'. m b w' s' g' k1)
      = m a w u g (\<lambda>w' s' g'. m b w' s' g' k2)"
    using Seq.IH(1) Seq.prems(1) by simp
  then show ?case by simp
next
  case (Alt a b)
  have "m a w (u @ d # v) g k1 = m a w u g k2" using Alt.IH(1) Alt.prems by simp
  moreover have "m b w (u @ d # v) g k1 = m b w u g k2" using Alt.IH(2) Alt.prems by simp
  ultimately show ?case by (simp split: option.splits)
next
  case (Star c)
  have "star c (\<lambda>w' s'. k1 w' s' g) w (u @ d # v) = star c (\<lambda>w' s'. k2 w' s' g) w u"
    using Star.prems by (intro star_blind) simp_all
  then show ?case by simp
next
  case (LazyStar c)
  have "lazy_star c (\<lambda>w' s'. k1 w' s' g) w (u @ d # v) = lazy_star c (\<lambda>w' s'. k2 w' s' g) w u"
    using LazyStar.prems by (intro lazy_star_blind) simp_all
  then show ?case by simp
next
  case (Opt a)
  have "m a w (u @ d # v) g k1 = m a w u g k2" using Opt.IH Opt.prems by simp
  moreover have "k1 w (u @ d # v) g = k2 w u g" using Opt.prems(2) by simp
  ultimately show ?case by (simp split: option.splits)
next
  case (Grp n a)
  have tk: "\<And>u'. take (length (u @ d # v) - length (u' @ d # v)) (u @ d # v)
      = take (length u - length u') u"
    by (simp add: take_append_le)
  have kk: "\<And>w' u' g'. k1 w' (u' @ d # v) (g'(n \<mapsto> take (length (u @ d # v) - length (u' @ d # v)) (u @ d # v)))
      = k2 w' u' (g'(n \<mapsto> take (length u - length u') u))"
    unfolding tk by (rule Grp.prems(2))
  from Grp.prems(1) have ba: "blind d a" by simp
  have "m a w (u @ d # v) g
        (\<lambda>w' s' g'. k1 w' s' (g'(n \<mapsto> take (length (u @ d # v) - length s') (u @ d # v))))
      = m a w u g (\<lambda>w' s' g'. k2 w' s' (g'(n \<mapsto> take (length u - length s') u)))"
    by (rule Grp.IH[of "\<lambda>w' s' g'. k1 w' s' (g'(n \<mapsto> take (length (u @ d # v) - length s') (u @ d # v)))"
          "\<lambda>w' s' g'. k2 w' s' (g'(n \<mapsto> take (length u - length s') u))" w u g, OF ba kk])
  then show ?case by simp
next
  case WordB
  have "word_after (u @ d # v) = word_after u"
    using WordB.prems(1) by (cases u) (simp_all add: word_after_def)
  with WordB.prems(2)[of w u g] show ?case by (cases "w = word_after u") simp_all
next
  case (NotAhead c)
  with NotAhead.prems(2)[of w u g] show ?case by (cases u) simp_all
qed

lemma star_post:
  "star c (\<lambda>w' s'. map_option h (k w' s')) w s = map_option h (star c k w s)"
  by (induction s arbitrary: w) (auto split: option.splits)

lemma lazy_star_post:
  "lazy_star c (\<lambda>w' s'. map_option h (k w' s')) w s = map_option h (lazy_star c k w s)"
  by (induction s arbitrary: w) (auto split: option.splits)

lemma m_post:
  "m r w s g (\<lambda>w' s' g'. map_option h (k w' s' g')) = map_option h (m r w s g k)"
proof (induction r arbitrary: w s g k)
  case (Seq a b)
  then show ?case by simp
next
  case (Alt a b)
  then show ?case by (simp split: option.splits)
next
  case (Opt a)
  then show ?case by (simp split: option.splits)
next
  case (Grp n a)
  show ?case using Grp[of w s g "\<lambda>w' s' g'. k w' s' (g'(n \<mapsto> take (length s - length s') s))"]
    by simp
qed (simp_all add: star_post lazy_star_post split: list.splits)

lemma match_at_blind:
  assumes "blind d r"
  shows "match_at r w (u @ d # v)
    = map_option (\<lambda>(w', u', g'). (w', u' @ d # v, g')) (match_at r w u)"
proof -
  have "m r w (u @ d # v) (\<lambda>_. None) (\<lambda>w' s' g'. Some (w', s', g'))
      = m r w u (\<lambda>_. None) (\<lambda>w' u' g'. map_option (\<lambda>(w', u', g'). (w', u' @ d # v, g')) (Some (w', u', g')))"
    using assms by (intro m_blind) simp_all
  then show ?thesis unfolding match_at_def m_post .
qed

lemma re_sub_blind:
  assumes "blind d r" and "1 \<le> minlen r"
  shows "re_sub r f w (u @ d # v) = re_sub r f w u @ d # re_sub r f (is_word d) v"
  using assms
proof (induction r f w u rule: re_sub.induct)
  case (1 r f w)
  then have "match_at r w [] = None" by (simp add: match_at_Nil)
  moreover from this 1 have "match_at r w (d # v) = None"
    using match_at_blind[of d r w "[]" v] by simp
  ultimately show ?case by simp
next
  case (2 r f w c cs)
  have mb: "match_at r w ((c # cs) @ d # v)
      = map_option (\<lambda>(w', u', g'). (w', u' @ d # v, g')) (match_at r w (c # cs))"
    using "2.prems"(1) by (rule match_at_blind)
  show ?case
  proof (cases "match_at r w (c # cs)")
    case None
    with mb have "match_at r w (c # cs @ d # v) = None" by simp
    with None "2.IH"(1)[OF None "2.prems"] show ?thesis by simp
  next
    case (Some st)
    obtain w' s' g where st: "st = (w', s', g)" by (cases st)
    from Some st have sh: "length s' < length (c # cs)"
      using match_at_shorter "2.prems"(2) by blast
    from mb Some st have m2: "match_at r w (c # cs @ d # v) = Some (w', s' @ d # v, g)" by simp
    have "take (length (c # cs) - length s') ((c # cs) @ d # v)
        = take (length (c # cs) - length s') (c # cs)"
      by (rule take_append_le) simp
    then have tk: "take (length (c # cs @ d # v) - length (s' @ d # v)) (c # cs @ d # v)
        = take (length (c # cs) - length s') (c # cs)"
      by simp
    have "re_sub r f w (c # cs @ d # v)
        = f (take (length (c # cs @ d # v) - length (s' @ d # v)) (c # cs @ d # v)) g
          @ re_sub r f w' (s' @ d # v)"
      using m2 sh by simp
    also have "\<dots> = f (take (length (c # cs) - length s') (c # cs)) g
          @ re_sub r f w' s' @ d # re_sub r f (is_word d) v"
      using "2.IH"(2)[OF Some st[symmetric] _ sh "2.prems"] tk by simp
    also have "\<dots> = re_sub r f w (c # cs) @ d # re_sub r f (is_word d) v"
      using Some st sh by simp
    finally show ?thesis by simp
  qed
qed

lemma re_sub_chars:
  "set (re_sub r (\<lambda>_ _. c) w s) \<subseteq> set s \<union> set c"
proof (induction r "\<lambda>(_ :: string) (_ :: groups). c" w s rule: re_sub.induct)
  case (1 r w)
  then show ?case by (auto split: option.splits)
next
  case (2 r w x xs)
  show ?case
  proof (cases "match_at r w (x # xs)")
    case None
    with 2 show ?thesis by auto
  next
    case (Some st)
    obtain w' s' g where st: "st = (w', s', g)" by (cases st)
    from match_at_Some(1)[of r w "x # xs" w' s' g] Some st
    obtain u where u: "x # xs = u @ s'" by auto
    then have sub: "set s' \<subseteq> set (x # xs)" by (metis set_append sup_ge2)
    show ?thesis
    proof (cases "length s' < length (x # xs)")
      case True
      with 2(2)[OF Some st[symmetric] _ True] Some st sub show ?thesis by auto
    next
      case False
      with 2(3)[OF Some st[symmetric] _ False] Some st show ?thesis by auto
    qed
  qed
qed

lemma re_sub_same_or_longer:
  "re_sub r (\<lambda>_ _. c) w s = s \<or> length c \<le> length (re_sub r (\<lambda>_ _. c) w s)"
proof (induction r "\<lambda>(_ :: string) (_ :: groups). c" w s rule: re_sub.induct)
  case (1 r w)
  then show ?case by (auto split: option.splits)
next
  case (2 r w x xs)
  show ?case
  proof (cases "match_at r w (x # xs)")
    case None
    with 2(1)[OF None] show ?thesis by auto
  next
    case (Some st)
    obtain w' s' g where st: "st = (w', s', g)" by (cases st)
    with Some show ?thesis by simp
  qed
qed

lemma re_sub_short:
  "length s < minlen r \<Longrightarrow> re_sub r f w s = s"
proof (induction s arbitrary: w)
  case Nil
  then have "match_at r w [] = None" by (simp add: match_at_Nil)
  then show ?case by simp
next
  case (Cons x xs)
  have "match_at r w (x # xs) = None"
  proof (cases "match_at r w (x # xs)")
    case (Some st)
    obtain w' s' g where st: "st = (w', s', g)" by (cases st)
    from match_at_Some(1)[of r w "x # xs" w' s' g] Some st
    obtain u where "x # xs = u @ s'" "minlen r \<le> length u" by auto
    then have "minlen r \<le> length (x # xs)" by (metis length_append le_add1 le_trans)
    with Cons.prems show ?thesis by simp
  qed simp
  with Cons show ?case by simp
qed


section \<open>Rule 3: the second substitution never applies\<close>

text \<open>
  Where the pattern of the second substitution of rule 3 would match, the first one has
  matched before and has written \<open>INTEGER\<close>; in what the first one returns, the second
  finds nothing.
\<close>

lemma lower_word: "is_word (lower c) = is_word c"
proof (cases c)
  case (Char b0 b1 b2 b3 b4 b5 b6 b7)
  show ?thesis unfolding Char
    by (cases b0; cases b1; cases b2; cases b3; cases b4; cases b5; cases b6; cases b7;
        simp add: lower_def is_upper_code is_word_code)
qed

lemma lower_eq_word: "lower c = lower a \<Longrightarrow> is_word c = is_word a"
  by (metis lower_word)

lemma nonword_lower: "\<not> is_word d \<Longrightarrow> is_word a \<Longrightarrow> lower d \<noteq> lower a"
  using lower_eq_word by blast

lemma letters_word:
  "is_word CHR ''A''" "is_word CHR ''U''" "is_word CHR ''T''" "is_word CHR ''O''"
  "is_word CHR ''_''" "is_word CHR ''I''" "is_word CHR ''N''" "is_word CHR ''C''"
  "is_word CHR ''R''" "is_word CHR ''E''" "is_word CHR ''M''" "is_word CHR ''S''"
  "is_word CHR ''L''" "is_word CHR ''G''"
  by (simp_all add: is_word_code)

lemma separators_not_word:
  "\<not> is_word backtick" "\<not> is_word dquote" "\<not> is_word newline" "\<not> is_word CHR ''(''"
  by (simp_all add: is_word_code)

lemma blind_rule2: "\<not> is_word d \<Longrightarrow> blind d (fst rule2)"
  by (simp add: rule2_def seqs_def str_i_def nonword_lower letters_word)

lemma blind_rule3a: "\<not> is_word d \<Longrightarrow> blind d (fst rule3a)"
  by (simp add: rule3a_def seqs_def str_i_def nonword_lower letters_word)


lemma match_at_short: "length s < minlen r \<Longrightarrow> match_at r w s = None"
proof (cases "match_at r w s")
  case (Some st)
  assume sh: "length s < minlen r"
  obtain w' s' g where st: "st = (w', s', g)" by (cases st)
  from match_at_Some(1)[of r w s w' s' g] Some st
  obtain u where "s = u @ s'" "minlen r \<le> length u" by auto
  then have "minlen r \<le> length s" by simp
  with sh show ?thesis by simp
qed simp

lemma minlen_rule3a: "minlen (fst rule3a) = 3"
  by (simp add: rule3a_def seqs_def str_i_def)

lemma match_at_rule3a:
  "match_at (fst rule3a) w (i # n # t # rest) =
     (if w \<noteq> is_word i \<and> lower i = lower CHR ''I'' \<and> lower n = lower CHR ''N''
         \<and> lower t = lower CHR ''T'' \<and> is_word t \<noteq> word_after rest \<and> \<not> word_after rest
      then Some (is_word t, rest, \<lambda>_. None) else None)"
  by (simp add: rule3a_def seqs_def str_i_def match_at_def word_after_def split: list.splits)


lemma minlen_rule3b: "minlen (fst rule3b) = 6"
  by (simp add: rule3b_def seqs_def str_i_def plus_def)

lemma match_at_rule3b:
  "match_at (fst rule3b) w (i # n # t # p # rest) =
     (if w \<noteq> is_word i \<and> lower i = lower CHR ''I'' \<and> lower n = lower CHR ''N''
         \<and> lower t = lower CHR ''T'' \<and> lower p = lower CHR ''(''
      then m (seqs [plus Digit, Atom (LitI CHR '')'')]) (is_word p) rest (\<lambda>_. None)
             (\<lambda>w' s' g'. Some (w', s', g'))
      else None)"
  by (simp add: rule3b_def seqs_def str_i_def match_at_def word_after_def)

lemma match_at_rule3b_needs:
  assumes "match_at (fst rule3b) w s \<noteq> None"
  shows "\<exists>i n t p rest. s = i # n # t # p # rest \<and> w \<noteq> is_word i \<and> lower i = lower CHR ''I''
           \<and> lower n = lower CHR ''N'' \<and> lower t = lower CHR ''T'' \<and> \<not> is_word p"
proof -
  from assms have "\<not> length s < 6" using match_at_short[of s "fst rule3b" w] minlen_rule3b by auto
  then obtain i n t p rest where s: "s = i # n # t # p # rest"
    by (cases s; cases "tl s"; cases "tl (tl s)"; cases "tl (tl (tl s))") auto
  from assms have c: "w \<noteq> is_word i \<and> lower i = lower CHR ''I'' \<and> lower n = lower CHR ''N''
         \<and> lower t = lower CHR ''T'' \<and> lower p = lower CHR ''(''"
    unfolding s match_at_rule3b by (simp split: if_splits)
  then have "\<not> is_word p" using lower_eq_word[of p "CHR ''(''"] separators_not_word(4) by simp
  with s c show ?thesis by blast
qed


lemma list3_cases:
  obtains "length s < 3" | i n t rest where "s = i # n # t # rest"
  by (cases s; cases "tl s"; cases "tl (tl s)") auto

lemma match_at_rule3a_after_word: "match_at (fst rule3a) True s = None"
proof (cases s rule: list3_cases)
  case 1
  then show ?thesis using match_at_short[of s "fst rule3a" True] minlen_rule3a by simp
next
  case (2 i n t rest)
  show ?thesis unfolding 2 match_at_rule3a
    using lower_eq_word[of i "CHR ''I''"] letters_word by auto
qed

lemma match_at_rule3b_after_word: "match_at (fst rule3b) True s = None"
proof (rule ccontr)
  assume "match_at (fst rule3b) True s \<noteq> None"
  from match_at_rule3b_needs[OF this] obtain i where "True \<noteq> is_word i" "lower i = lower CHR ''I''"
    by blast
  then show False using lower_eq_word[of i "CHR ''I''"] letters_word by simp
qed

lemma re_sub_rule3a_after_word:
  "re_sub (fst rule3a) f True (d # ds) = d # re_sub (fst rule3a) f (is_word d) ds"
  by (simp add: match_at_rule3a_after_word)

lemma re_sub_rule3b_after_word:
  "re_sub (fst rule3b) f True (d # ds) = d # re_sub (fst rule3b) f (is_word d) ds"
  by (simp add: match_at_rule3b_after_word)

lemma match_at_rule3a_Some:
  assumes "match_at (fst rule3a) w s = Some st"
  shows "\<exists>i n t rest. s = i # n # t # rest \<and> st = (True, rest, \<lambda>_. None) \<and> \<not> w
           \<and> lower i = lower CHR ''I'' \<and> lower n = lower CHR ''N'' \<and> lower t = lower CHR ''T''
           \<and> \<not> word_after rest"
proof (cases s rule: list3_cases)
  case 1
  then show ?thesis using assms match_at_short[of s "fst rule3a" w] minlen_rule3a by simp
next
  case (2 i n t rest)
  from assms have c: "w \<noteq> is_word i \<and> lower i = lower CHR ''I'' \<and> lower n = lower CHR ''N''
         \<and> lower t = lower CHR ''T'' \<and> is_word t \<noteq> word_after rest \<and> \<not> word_after rest"
    and st: "st = (is_word t, rest, \<lambda>_. None)"
    unfolding 2 match_at_rule3a by (simp_all split: if_splits)
  from c have "is_word i" "is_word t"
    using lower_eq_word[of i "CHR ''I''"] lower_eq_word[of t "CHR ''T''"] letters_word by simp_all
  with c st 2 show ?thesis by simp
qed

lemma re_sub_rule3b_INTEGER:
  "re_sub (fst rule3b) f w (''INTEGER'' @ y) = ''INTEGER'' @ re_sub (fst rule3b) f True y"
proof -
  have "match_at (fst rule3b) w (''INTEGER'' @ y) = None"
  proof (rule ccontr)
    assume "match_at (fst rule3b) w (''INTEGER'' @ y) \<noteq> None"
    from match_at_rule3b_needs[OF this] obtain i n t p rest where
      "''INTEGER'' @ y = i # n # t # p # rest" "\<not> is_word p" by blast
    then show False using letters_word by simp
  qed
  then have "re_sub (fst rule3b) f w (''INTEGER'' @ y)
      = CHR ''I'' # re_sub (fst rule3b) f True (''NTEGER'' @ y)"
    by (simp add: letters_word)
  then show ?thesis by (simp del: re_sub.simps add: re_sub_rule3b_after_word letters_word)
qed

lemma rule3b_after_rule3a:
  "re_sub (fst rule3b) (snd rule3b) w (re_sub (fst rule3a) (snd rule3a) w x)
     = re_sub (fst rule3a) (snd rule3a) w x"
proof (induction "fst rule3a" "snd rule3a" w x rule: re_sub.induct)
  case (1 w)
  have "match_at (fst rule3a) w [] = None" using match_at_short[of "[]"] minlen_rule3a by simp
  moreover have "match_at (fst rule3b) w [] = None" using match_at_short[of "[]"] minlen_rule3b by simp
  ultimately show ?case by simp
next
  case (2 w c cs)
  show ?case
  proof (cases "match_at (fst rule3a) w (c # cs)")
    case None
    let ?y = "re_sub (fst rule3a) (snd rule3a) (is_word c) cs"
    have a: "re_sub (fst rule3a) (snd rule3a) w (c # cs) = c # ?y" using None by simp
    have "match_at (fst rule3b) w (c # ?y) = None"
    proof (rule ccontr)
      assume "match_at (fst rule3b) w (c # ?y) \<noteq> None"
      from match_at_rule3b_needs[OF this] obtain n t p rest where
        y: "?y = n # t # p # rest" and c: "w \<noteq> is_word c" "lower c = lower CHR ''I''"
          "lower n = lower CHR ''N''" "lower t = lower CHR ''T''" "\<not> is_word p" by auto
      from c have wc: "is_word c" "is_word n" "is_word t" "\<not> w"
        using lower_eq_word[of c "CHR ''I''"] lower_eq_word[of n "CHR ''N''"]
          lower_eq_word[of t "CHR ''T''"] letters_word by auto
      from y wc obtain cs1 where cs: "cs = n # cs1"
        and y1: "re_sub (fst rule3a) (snd rule3a) True cs1 = t # p # rest"
        by (cases cs) (auto simp: re_sub_rule3a_after_word match_at_rule3a_after_word)
      from y1 wc obtain cs2 where cs1: "cs1 = t # cs2"
        and y2: "re_sub (fst rule3a) (snd rule3a) True cs2 = p # rest"
        by (cases cs1) (auto simp: re_sub_rule3a_after_word match_at_rule3a_after_word)
      from y2 obtain cs3 where cs2: "cs2 = p # cs3"
        by (cases cs2) (auto simp: re_sub_rule3a_after_word match_at_rule3a_after_word)
      have "match_at (fst rule3a) w (c # cs) \<noteq> None"
        unfolding cs cs1 cs2 match_at_rule3a using c wc by (simp add: word_after_def)
      with None show False by simp
    qed
    then have "re_sub (fst rule3b) (snd rule3b) w (c # ?y)
        = c # re_sub (fst rule3b) (snd rule3b) (is_word c) ?y" by simp
    with a "2.hyps"(1)[OF None] show ?thesis by simp
  next
    case (Some st)
    from match_at_rule3a_Some[OF Some] obtain i n t rest where
      s: "c # cs = i # n # t # rest" and st: "st = (True, rest, \<lambda>_. None)" by blast
    have sh: "length rest < length (c # cs)" unfolding s by simp
    have a: "re_sub (fst rule3a) (snd rule3a) w (c # cs)
        = ''INTEGER'' @ re_sub (fst rule3a) (snd rule3a) True rest"
      using Some st sh by (simp add: rule3a_def)
    from "2.hyps"(2)[OF Some st[symmetric] _ sh]
    have "re_sub (fst rule3b) (snd rule3b) True (re_sub (fst rule3a) (snd rule3a) True rest)
        = re_sub (fst rule3a) (snd rule3a) True rest" by simp
    with a show ?thesis by (simp only: re_sub_rule3b_INTEGER)
  qed
qed

lemma rule3_is_rule3a: "rule3 s = sub rule3a s"
  by (simp add: rule3_def sub_def rule3b_after_rule3a)


section \<open>Rule 1 and the rules after it\<close>

text \<open>
  Rule 1 rewrites a backtick, the text up to the next backtick when no newline comes
  first, and that backtick; everything else it copies.
\<close>

lemma lazy_star_Dot_skip:
  assumes "\<And>w' x xs. x \<noteq> backtick \<Longrightarrow> k w' (x # xs) = None"
    and "\<forall>x \<in> set u. x \<noteq> backtick \<and> x \<noteq> newline"
  shows "lazy_star Dot k w (u @ s) = lazy_star Dot k (if u = [] then w else is_word (last u)) s"
  using assms(2)
proof (induction u arbitrary: w)
  case Nil
  then show ?case by simp
next
  case (Cons x xs)
  then have "k w (x # xs @ s) = None" using assms(1) by simp
  with Cons show ?case by simp
qed

lemma match_at_rule1_Cons:
  "match_at (fst rule1) w (c # t) =
     (if c = backtick
      then lazy_star Dot
             (\<lambda>w' s'. case s' of [] \<Rightarrow> None
                | x # xs \<Rightarrow> if x = backtick
                    then Some (is_word x, xs, [Suc 0 \<mapsto> take (length t - length s') t]) else None)
             (is_word c) t
      else None)"
  by (simp add: rule1_def seqs_def match_at_def cong: list.case_cong)

lemma match_at_rule1_Nil: "match_at (fst rule1) w [] = None"
  by (simp add: rule1_def seqs_def match_at_def)

lemma match_at_rule1_other: "c \<noteq> backtick \<Longrightarrow> match_at (fst rule1) w (c # t) = None"
  by (simp add: match_at_rule1_Cons)

lemma match_at_rule1_pair:
  assumes "\<forall>x \<in> set u. x \<noteq> backtick \<and> x \<noteq> newline"
  shows "match_at (fst rule1) w (backtick # u @ backtick # rest) = Some (False, rest, [1 \<mapsto> u])"
proof -
  let ?t = "u @ backtick # rest"
  let ?k = "\<lambda>w' s'. case s' of [] \<Rightarrow> None
                | x # xs \<Rightarrow> if x = backtick
                    then Some (is_word x, xs, [Suc 0 \<mapsto> take (length ?t - length s') ?t]) else None"
  have "lazy_star Dot ?k (is_word backtick) (u @ backtick # rest)
      = lazy_star Dot ?k (if u = [] then is_word backtick else is_word (last u)) (backtick # rest)"
    using assms by (intro lazy_star_Dot_skip) simp_all
  also have "\<dots> = Some (False, rest, [1 \<mapsto> u])"
    by (simp add: separators_not_word)
  finally show ?thesis by (simp add: match_at_rule1_Cons)
qed

lemma match_at_rule1_newline:
  assumes "\<forall>x \<in> set u. x \<noteq> backtick \<and> x \<noteq> newline"
  shows "match_at (fst rule1) w (backtick # u @ newline # rest) = None"
proof -
  let ?t = "u @ newline # rest"
  let ?k = "\<lambda>w' s'. case s' of [] \<Rightarrow> None
                | x # xs \<Rightarrow> if x = backtick
                    then Some (is_word x, xs, [Suc 0 \<mapsto> take (length ?t - length s') ?t]) else None"
  have "lazy_star Dot ?k (is_word backtick) (u @ newline # rest)
      = lazy_star Dot ?k (if u = [] then is_word backtick else is_word (last u)) (newline # rest)"
    using assms by (intro lazy_star_Dot_skip) simp_all
  also have "\<dots> = None" by simp
  finally show ?thesis by (simp add: match_at_rule1_Cons)
qed

lemma match_at_rule1_open:
  assumes "\<forall>x \<in> set u. x \<noteq> backtick \<and> x \<noteq> newline"
  shows "match_at (fst rule1) w (backtick # u) = None"
proof -
  let ?k = "\<lambda>w' s'. case s' of [] \<Rightarrow> None
                | x # xs \<Rightarrow> if x = backtick
                    then Some (is_word x, xs, [Suc 0 \<mapsto> take (length u - length s') u]) else None"
  have "lazy_star Dot ?k (is_word backtick) (u @ [])
      = lazy_star Dot ?k (if u = [] then is_word backtick else is_word (last u)) []"
    using assms by (intro lazy_star_Dot_skip) simp_all
  also have "\<dots> = None" by simp
  finally show ?thesis by (simp add: match_at_rule1_Cons)
qed


lemma match_at_rule1_any: "match_at (fst rule1) w s = match_at (fst rule1) w' s"
  by (cases s) (simp_all add: match_at_rule1_Nil match_at_rule1_Cons)

lemma re_sub_rule1: "re_sub (fst rule1) (snd rule1) w s = sub rule1 s"
proof (cases s)
  case Nil
  then show ?thesis by (simp add: sub_def match_at_rule1_Nil)
next
  case (Cons c cs)
  show ?thesis unfolding Cons sub_def re_sub.simps match_at_rule1_any[of w _ False] ..
qed

lemma sub_rule1_Nil: "sub rule1 [] = []"
  by (simp add: sub_def match_at_rule1_Nil)

lemma sub_rule1_other: "c \<noteq> backtick \<Longrightarrow> sub rule1 (c # t) = c # sub rule1 t"
proof -
  assume "c \<noteq> backtick"
  then have "sub rule1 (c # t) = c # re_sub (fst rule1) (snd rule1) (is_word c) t"
    by (simp add: sub_def match_at_rule1_other)
  then show ?thesis by (simp only: re_sub_rule1)
qed

lemma sub_rule1_pair:
  assumes "\<forall>x \<in> set u. x \<noteq> backtick \<and> x \<noteq> newline"
  shows "sub rule1 (backtick # u @ backtick # rest) = dquote # u @ dquote # sub rule1 rest"
proof -
  have "sub rule1 (backtick # u @ backtick # rest)
      = snd rule1 (take (length (backtick # u @ backtick # rest) - length rest)
                     (backtick # u @ backtick # rest)) [1 \<mapsto> u]
        @ re_sub (fst rule1) (snd rule1) False rest"
    by (simp add: sub_def match_at_rule1_pair[OF assms])
  also have "\<dots> = dquote # u @ dquote # re_sub (fst rule1) (snd rule1) False rest"
    by (simp add: rule1_def grp_def)
  finally show ?thesis by (simp only: re_sub_rule1)
qed

lemma sub_rule1_newline:
  assumes "\<forall>x \<in> set u. x \<noteq> backtick \<and> x \<noteq> newline"
  shows "sub rule1 (backtick # u @ newline # rest) = backtick # sub rule1 (u @ newline # rest)"
proof -
  have "sub rule1 (backtick # u @ newline # rest)
      = backtick # re_sub (fst rule1) (snd rule1) (is_word backtick) (u @ newline # rest)"
    by (simp add: sub_def match_at_rule1_newline[OF assms])
  then show ?thesis by (simp only: re_sub_rule1)
qed

lemma sub_rule1_open:
  assumes "\<forall>x \<in> set u. x \<noteq> backtick \<and> x \<noteq> newline"
  shows "sub rule1 (backtick # u) = backtick # sub rule1 u"
proof -
  have "sub rule1 (backtick # u)
      = backtick # re_sub (fst rule1) (snd rule1) (is_word backtick) u"
    by (simp add: sub_def match_at_rule1_open[OF assms])
  then show ?thesis by (simp only: re_sub_rule1)
qed

lemma sub_rule1_prefix: "backtick \<notin> set u \<Longrightarrow> sub rule1 (u @ s) = u @ sub rule1 s"
proof (induction u)
  case Nil
  then show ?case by simp
next
  case (Cons a u)
  then have "a \<noteq> backtick" by auto
  with Cons show ?case by (simp add: sub_rule1_other)
qed

lemma sub_rule1_none: "backtick \<notin> set u \<Longrightarrow> sub rule1 u = u"
  using sub_rule1_prefix[of u "[]"] by (simp add: sub_rule1_Nil)


lemma rule1_commutes:
  assumes bl: "blind backtick r" "blind dquote r" "blind newline r" and ml: "1 \<le> minlen r"
    and cc: "backtick \<notin> set c" "newline \<notin> set c"
  shows "re_sub r (\<lambda>_ _. c) w (sub rule1 s) = sub rule1 (re_sub r (\<lambda>_ _. c) w s)"
proof (induction s arbitrary: w rule: length_induct)
  case (1 s)
  let ?R = "re_sub r (\<lambda>_ _. c)"
  have sepb: "\<And>w u v. ?R w (u @ backtick # v) = ?R w u @ backtick # ?R False v"
    using re_sub_blind[OF bl(1) ml] separators_not_word by simp
  have sepq: "\<And>w u v. ?R w (u @ dquote # v) = ?R w u @ dquote # ?R False v"
    using re_sub_blind[OF bl(2) ml] separators_not_word by simp
  have sepn: "\<And>w u v. ?R w (u @ newline # v) = ?R w u @ newline # ?R False v"
    using re_sub_blind[OF bl(3) ml] separators_not_word by simp
  have nob: "backtick \<notin> set (?R w x)" if "backtick \<notin> set x" for w x
    using re_sub_chars[of r c w x] cc(1) that by auto
  have clean: "\<forall>y \<in> set (?R w x). y \<noteq> backtick \<and> y \<noteq> newline"
    if "\<forall>y \<in> set x. y \<noteq> backtick \<and> y \<noteq> newline" for w x
  proof
    fix y assume "y \<in> set (?R w x)"
    then have "y \<in> set x \<or> y \<in> set c" using re_sub_chars[of r c w x] by auto
    then show "y \<noteq> backtick \<and> y \<noteq> newline" using that cc by auto
  qed
  show ?case
  proof (cases "backtick \<in> set s")
    case False
    then show ?thesis using nob[OF False] by (simp add: sub_rule1_none)
  next
    case True
    then obtain u t where s: "s = u @ backtick # t" and u: "backtick \<notin> set u"
      by (meson split_list_first)
    define x where "x = takeWhile (\<lambda>y. y \<noteq> backtick \<and> y \<noteq> newline) t"
    define t' where "t' = dropWhile (\<lambda>y. y \<noteq> backtick \<and> y \<noteq> newline) t"
    have t: "t = x @ t'" by (simp add: x_def t'_def)
    have x: "\<forall>y \<in> set x. y \<noteq> backtick \<and> y \<noteq> newline"
      by (auto simp: x_def dest: set_takeWhileD)
    then have xb: "backtick \<notin> set x" by blast
    have Rx: "\<forall>y \<in> set (?R False x). y \<noteq> backtick \<and> y \<noteq> newline" using clean[OF x] .
    then have Rxb: "backtick \<notin> set (?R False x)" by blast
    have Ru: "backtick \<notin> set (?R w u)" using nob[OF u] .
    consider "t' = []" | rest where "t' = backtick # rest" | rest where "t' = newline # rest"
    proof (cases t')
      case Nil
      then show ?thesis using that by simp
    next
      case (Cons a rest)
      then have "dropWhile (\<lambda>y. y \<noteq> backtick \<and> y \<noteq> newline) t \<noteq> []"
        and "hd (dropWhile (\<lambda>y. y \<noteq> backtick \<and> y \<noteq> newline) t) = a"
        by (simp_all add: t'_def[symmetric])
      then have "\<not> (a \<noteq> backtick \<and> a \<noteq> newline)"
        using hd_dropWhile[of "\<lambda>y. y \<noteq> backtick \<and> y \<noteq> newline" t] by simp
      with Cons show ?thesis using that by blast
    qed
    then show ?thesis
    proof cases
      case 1
      have "sub rule1 s = u @ backtick # x"
        unfolding s t 1 using u x xb
        by (simp add: sub_rule1_prefix sub_rule1_open sub_rule1_none)
      then have "?R w (sub rule1 s) = ?R w u @ backtick # ?R False x" by (simp add: sepb)
      moreover have "?R w s = ?R w u @ backtick # ?R False x" unfolding s t 1 by (simp add: sepb)
      moreover have "sub rule1 (?R w u @ backtick # ?R False x) = ?R w u @ backtick # ?R False x"
        using Ru Rx Rxb by (simp add: sub_rule1_prefix sub_rule1_open sub_rule1_none)
      ultimately show ?thesis by simp
    next
      case (2 rest)
      have len: "length rest < length s" unfolding s t 2 by simp
      have "sub rule1 s = u @ dquote # x @ dquote # sub rule1 rest"
        unfolding s t 2 using u x by (simp add: sub_rule1_prefix sub_rule1_pair)
      then have "?R w (sub rule1 s) = ?R w u @ dquote # ?R False x @ dquote # ?R False (sub rule1 rest)"
        by (simp add: sepq)
      moreover have "?R w s = ?R w u @ backtick # ?R False x @ backtick # ?R False rest"
        unfolding s t 2 by (simp add: sepb)
      moreover have "sub rule1 (?R w u @ backtick # ?R False x @ backtick # ?R False rest)
          = ?R w u @ dquote # ?R False x @ dquote # sub rule1 (?R False rest)"
        using Ru Rx by (simp add: sub_rule1_prefix sub_rule1_pair)
      moreover have "?R False (sub rule1 rest) = sub rule1 (?R False rest)"
        using 1 len by blast
      ultimately show ?thesis by simp
    next
      case (3 rest)
      have len: "length rest < length s" unfolding s t 3 by simp
      have xn: "backtick \<notin> set (x @ [newline])" using xb by simp
      have "sub rule1 (x @ newline # rest) = x @ newline # sub rule1 rest"
        using sub_rule1_prefix[OF xn, of rest] by simp
      then have "sub rule1 s = u @ backtick # x @ newline # sub rule1 rest"
        unfolding s t 3 using u x by (simp add: sub_rule1_prefix sub_rule1_newline)
      then have "?R w (sub rule1 s) = ?R w u @ backtick # ?R False x @ newline # ?R False (sub rule1 rest)"
        by (simp add: sepb sepn)
      moreover have "?R w s = ?R w u @ backtick # ?R False x @ newline # ?R False rest"
        unfolding s t 3 by (simp add: sepb sepn)
      moreover have "sub rule1 (?R w u @ backtick # ?R False x @ newline # ?R False rest)
          = ?R w u @ backtick # ?R False x @ newline # sub rule1 (?R False rest)"
      proof -
        have Rxn: "backtick \<notin> set (?R False x @ [newline])" using Rxb by simp
        have "sub rule1 (?R False x @ newline # ?R False rest)
            = ?R False x @ newline # sub rule1 (?R False rest)"
          using sub_rule1_prefix[OF Rxn, of "?R False rest"] by simp
        then show ?thesis using Ru Rx by (simp add: sub_rule1_prefix sub_rule1_newline)
      qed
      moreover have "?R False (sub rule1 rest) = sub rule1 (?R False rest)"
        using 1 len by blast
      ultimately show ?thesis by simp
    qed
  qed
qed



section \<open>Swapping rules 1 and 3\<close>

text \<open>
  Rules 2 and 3 write words without backticks and newlines and treat a backtick like a
  double quote, so rule 1 can run before or after them; and rule 2 works inside runs of
  word characters that rule 3 either replaces as a whole or leaves alone.
\<close>

lemma snd_rules: "snd rule2 = (\<lambda>_ _. ''SERIAL'')" "snd rule3a = (\<lambda>_ _. ''INTEGER'')"
  by (simp_all add: rule2_def rule3a_def)

lemma minlen_rule2: "minlen (fst rule2) = 13"
  by (simp add: rule2_def seqs_def str_i_def)

lemma rule2_rule1: "sub rule2 (sub rule1 s) = sub rule1 (sub rule2 s)"
  unfolding sub_def[of rule2] snd_rules
  by (rule rule1_commutes) (simp_all add: blind_rule2 separators_not_word minlen_rule2)

lemma rule3a_rule1: "sub rule3a (sub rule1 s) = sub rule1 (sub rule3a s)"
  unfolding sub_def[of rule3a] snd_rules
  by (rule rule1_commutes) (simp_all add: blind_rule3a separators_not_word minlen_rule3a)

lemma rule3a_word_after_word:
  "\<forall>c \<in> set u. is_word c \<Longrightarrow> re_sub (fst rule3a) f True u = u"
proof (induction u)
  case Nil
  then show ?case using match_at_short[of "[]" "fst rule3a"] minlen_rule3a by simp
next
  case (Cons d ds)
  then show ?case by (simp del: re_sub.simps add: re_sub_rule3a_after_word)
qed

lemma rule3a_word:
  assumes "\<forall>c \<in> set u. is_word c"
  shows "re_sub (fst rule3a) (snd rule3a) w u = u
       \<or> (length u = 3 \<and> re_sub (fst rule3a) (snd rule3a) w u = ''INTEGER'')"
proof (cases u)
  case Nil
  then show ?thesis using match_at_short[of "[]" "fst rule3a"] minlen_rule3a by simp
next
  case (Cons c cs)
  show ?thesis
  proof (cases "match_at (fst rule3a) w u")
    case None
    then have "re_sub (fst rule3a) (snd rule3a) w u
        = c # re_sub (fst rule3a) (snd rule3a) (is_word c) cs"
      unfolding Cons by simp
    then show ?thesis using assms rule3a_word_after_word[of cs] unfolding Cons by simp
  next
    case (Some st)
    from match_at_rule3a_Some[OF Some] obtain i n t rest where
      u: "u = i # n # t # rest" and st: "st = (True, rest, \<lambda>_. None)"
      and wa: "\<not> word_after rest" by blast
    from assms u wa have rest: "rest = []" by (cases rest) (simp_all add: word_after_def)
    have "re_sub (fst rule3a) (snd rule3a) w (i # n # t # rest)
        = ''INTEGER'' @ re_sub (fst rule3a) (snd rule3a) True rest"
      using Some st unfolding u by (simp add: rule3a_def)
    then show ?thesis unfolding u rest
      using match_at_short[of "[]" "fst rule3a"] minlen_rule3a by simp
  qed
qed

lemma rule2_rule3a_word:
  assumes u: "\<forall>c \<in> set u. is_word c"
  shows "re_sub (fst rule2) (snd rule2) w (re_sub (fst rule3a) (snd rule3a) w u)
       = re_sub (fst rule3a) (snd rule3a) w (re_sub (fst rule2) (snd rule2) w u)"
proof -
  let ?A = "re_sub (fst rule3a) (snd rule3a) w"
  let ?B = "re_sub (fst rule2) (snd rule2) w"
  have Bw: "\<forall>c \<in> set (?B u). is_word c"
  proof
    fix c assume "c \<in> set (?B u)"
    then have "c \<in> set u \<or> c \<in> set ''SERIAL''"
      using re_sub_chars[of "fst rule2" "''SERIAL''" w u] unfolding snd_rules by auto
    then show "is_word c" using u by (auto simp: is_word_code)
  qed
  from rule3a_word[OF u, of w] show ?thesis
  proof
    assume a: "?A u = u"
    from rule3a_word[OF Bw, of w] show ?thesis
    proof
      assume "?A (?B u) = ?B u"
      with a show ?thesis by simp
    next
      assume b: "length (?B u) = 3 \<and> ?A (?B u) = ''INTEGER''"
      from re_sub_same_or_longer[of "fst rule2" "''SERIAL''" w u]
      have "?B u = u \<or> length ''SERIAL'' \<le> length (?B u)" unfolding snd_rules .
      with b have "?B u = u" by auto
      with a show ?thesis by simp
    qed
  next
    assume a: "length u = 3 \<and> ?A u = ''INTEGER''"
    then have "?B u = u" by (intro re_sub_short) (simp add: minlen_rule2)
    moreover have "?B ''INTEGER'' = ''INTEGER''" by (intro re_sub_short) (simp add: minlen_rule2)
    ultimately show ?thesis using a by simp
  qed
qed

lemma rule2_rule3a_any:
  "re_sub (fst rule2) (snd rule2) w (re_sub (fst rule3a) (snd rule3a) w s)
     = re_sub (fst rule3a) (snd rule3a) w (re_sub (fst rule2) (snd rule2) w s)"
proof (induction s arbitrary: w rule: length_induct)
  case (1 s)
  let ?A = "re_sub (fst rule3a) (snd rule3a)"
  let ?B = "re_sub (fst rule2) (snd rule2)"
  define u where "u = takeWhile is_word s"
  define s' where "s' = dropWhile is_word s"
  have s: "s = u @ s'" by (simp add: u_def s'_def)
  have u: "\<forall>c \<in> set u. is_word c" by (auto simp: u_def dest: set_takeWhileD)
  show ?case
  proof (cases s')
    case Nil
    with s have "s = u" by simp
    then show ?thesis using rule2_rule3a_word[OF u] by simp
  next
    case (Cons d v)
    then have "dropWhile is_word s \<noteq> []" and "hd (dropWhile is_word s) = d"
      by (simp_all add: s'_def[symmetric])
    then have d: "\<not> is_word d" using hd_dropWhile[of is_word s] by simp
    have len: "length v < length s" unfolding s Cons by simp
    have sa: "\<And>w x y. ?A w (x @ d # y) = ?A w x @ d # ?A False y"
      using re_sub_blind[OF blind_rule3a[OF d] rules_minlen(3)] d by simp
    have sb: "\<And>w x y. ?B w (x @ d # y) = ?B w x @ d # ?B False y"
      using re_sub_blind[OF blind_rule2[OF d] rules_minlen(2)] d by simp
    have "?B w (?A w s) = ?B w (?A w u) @ d # ?B False (?A False v)"
      unfolding s Cons by (simp only: sa sb)
    moreover have "?A w (?B w s) = ?A w (?B w u) @ d # ?A False (?B False v)"
      unfolding s Cons by (simp only: sa sb)
    moreover have "?B False (?A False v) = ?A False (?B False v)" using 1 len by blast
    ultimately show ?thesis using rule2_rule3a_word[OF u, of w] by simp
  qed
qed

lemma rule2_rule3a: "sub rule2 (sub rule3a s) = sub rule3a (sub rule2 s)"
  by (simp add: sub_def rule2_rule3a_any)

lemma swapped_same:
  "sub rule1 (sub rule2 (rule3 s)) = rule3 (sub rule2 (sub rule1 s))"
  by (simp only: rule3_is_rule3a rule2_rule1[symmetric] rule3a_rule1[symmetric] rule2_rule3a)

lemma rewrite_swapped_same: "rewrite_swapped s = rewrite s"
  by (simp only: rewrite_swapped_def rewrite_def swapped_same)


lemma rewrite_backtick_int:
  "rewrite ([backtick] @ ''int'' @ [backtick]) = Inr ([dquote] @ ''INTEGER'' @ [dquote])"
  by code_simp

text \<open>
  C6, as stated: some input with a backtick-quoted identifier \<open>int\<close> gets a different
  output when rules 1 and 3 change places.  There is no such input.
\<close>

theorem swap_changes_output_counterexample:
  "\<not> (\<exists>s. contains ([backtick] @ ''int'' @ [backtick]) s \<and> rewrite_swapped s \<noteq> rewrite s)"
  by (simp add: rewrite_swapped_same)

text \<open>
  C6, amended: the pipeline with rules 1 and 3 in each other's place returns, for every
  input, what the pipeline returns; for the identifier \<open>int\<close> in backticks both return
  \<open>INTEGER\<close> in double quotes.
\<close>

theorem swap_rules_1_3_same_output:
  "rewrite_swapped s = rewrite s
   \<and> rewrite ([backtick] @ ''int'' @ [backtick]) = Inr ([dquote] @ ''INTEGER'' @ [dquote])
   \<and> rewrite_swapped ([backtick] @ ''int'' @ [backtick]) = Inr ([dquote] @ ''INTEGER'' @ [dquote])"
  by (simp only: rewrite_swapped_same rewrite_backtick_int simp_thms)


section \<open>A second pass, rule by rule\<close>




























end
